theory Spec2Isabelle
  imports Main "HOL-Library.Word" "HOL-Library.Multiset"
begin

section \<open>Data model of the R10K pipeline simulator\<close>

text \<open>
  The source under verification is \<^verbatim>\<open>src/cpu.cpp\<close>: the class \<^verbatim>\<open>CPU\<close> with its cycle
  loop (\<^verbatim>\<open>simulate\<close>, \<^verbatim>\<open>tick\<close>) and the seven stage procedures. Register identifiers are
  \<^verbatim>\<open>uint32_t\<close> values with the sentinel \<^verbatim>\<open>-1\<close> for "none"; they are 32-bit words here.
  Cycle numbers, sizes and instruction indices are natural numbers (runs shorter than
  \<open>2 ^ 32\<close> cycles). An \<^verbatim>\<open>Instruction*\<close> is the index of the instruction in
  \<^verbatim>\<open>instructionsList\<close>: every queue, reservation station and ROB entry holds such an
  index, and a write through the pointer is an update of the list at that index.
\<close>

type_synonym u32 = "32 word"

datatype RSType = RSType_ALU | RSType_LOAD | RSType_STORE

datatype stage = Fetch | Decode | Dispatch | Issue | Execute | Complete | Retire

text \<open>
  Modelled from the spec: class \<^verbatim>\<open>PhysicalRegister\<close> (its header is not among the sources):
  a register number, \<^verbatim>\<open>-1\<close> when absent, and a ready flag.
\<close>

record PhysicalRegister =
  regNum :: u32
  ready :: bool

definition noReg :: PhysicalRegister where
  "noReg = \<lparr>regNum = - 1, ready = False\<rparr>"

text \<open>
  Modelled from the spec: class \<^verbatim>\<open>Instruction\<close>: sequence index, operation kind, the three
  architectural operands, the renamed physical registers, the back-reference to the
  allocated reservation station, the execution latency and one optional timestamp per
  stage. \<^verbatim>\<open>cpu.cpp\<close> never sets a status flag by itself: \<^verbatim>\<open>hasIssued\<close>,
  \<^verbatim>\<open>hasCompleted\<close> and \<^verbatim>\<open>hasRetired\<close> hold once the corresponding \<^verbatim>\<open>set...Cycle\<close>
  call has recorded its cycle.
\<close>

record Instruction =
  seqNum :: nat
  rsKind :: RSType
  srcOp1 :: u32
  srcOp2 :: u32
  dstOp :: u32
  srcPhysicalReg1 :: PhysicalRegister
  srcPhysicalReg2 :: PhysicalRegister
  dstPhysicalReg :: PhysicalRegister
  renamed :: bool
  allocatedRs :: "nat option"
  execTime :: nat
  fetchCycle :: "nat option"
  decodeCycle :: "nat option"
  dispatchCycle :: "nat option"
  issueCycle :: "nat option"
  executeCycle :: "nat option"
  completeCycle :: "nat option"
  retireCycle :: "nat option"

definition new_Instruction :: "nat \<Rightarrow> RSType \<Rightarrow> u32 \<Rightarrow> u32 \<Rightarrow> u32 \<Rightarrow> Instruction" where
  "new_Instruction n k s1 s2 d =
     \<lparr>seqNum = n, rsKind = k, srcOp1 = s1, srcOp2 = s2, dstOp = d,
      srcPhysicalReg1 = noReg, srcPhysicalReg2 = noReg, dstPhysicalReg = noReg,
      renamed = False, allocatedRs = None, execTime = 0,
      fetchCycle = None, decodeCycle = None, dispatchCycle = None, issueCycle = None,
      executeCycle = None, completeCycle = None, retireCycle = None\<rparr>"

definition hasIssued :: "Instruction \<Rightarrow> bool" where
  "hasIssued i = (issueCycle i \<noteq> None)"

definition hasCompleted :: "Instruction \<Rightarrow> bool" where
  "hasCompleted i = (completeCycle i \<noteq> None)"

definition hasRetired :: "Instruction \<Rightarrow> bool" where
  "hasRetired i = (retireCycle i \<noteq> None)"

fun stampOf :: "stage \<Rightarrow> Instruction \<Rightarrow> nat option" where
  "stampOf Fetch i = fetchCycle i"
| "stampOf Decode i = decodeCycle i"
| "stampOf Dispatch i = dispatchCycle i"
| "stampOf Issue i = issueCycle i"
| "stampOf Execute i = executeCycle i"
| "stampOf Complete i = completeCycle i"
| "stampOf Retire i = retireCycle i"

text \<open>
  Modelled from the spec: class \<^verbatim>\<open>MapTable\<close>: the architectural-to-physical mapping and a
  readiness bit per physical register. \<^verbatim>\<open>getMapping\<close> returns the mapped register with its
  current readiness; \<^verbatim>\<open>setMapping\<close> installs a register together with its readiness. An
  index outside the table is undefined behaviour in the source; here the read yields the
  absent register and the write changes nothing.
\<close>

record MapTable =
  mapping :: "u32 list"
  readyBits :: "bool list"

definition new_MapTable :: "nat \<Rightarrow> nat \<Rightarrow> MapTable" where
  "new_MapTable nArch nPhys =
     \<lparr>mapping = map of_nat [0..<nArch], readyBits = replicate nPhys True\<rparr>"

definition getMapping :: "MapTable \<Rightarrow> u32 \<Rightarrow> PhysicalRegister" where
  "getMapping mt a =
     (if unat a < length (mapping mt)
      then (let p = mapping mt ! unat a
            in \<lparr>regNum = p,
                ready = (if unat p < length (readyBits mt) then readyBits mt ! unat p else False)\<rparr>)
      else noReg)"

definition setMapping :: "u32 \<Rightarrow> PhysicalRegister \<Rightarrow> MapTable \<Rightarrow> MapTable" where
  "setMapping a p mt =
     mt\<lparr>mapping := (mapping mt)[unat a := regNum p],
        readyBits := (readyBits mt)[unat (regNum p) := ready p]\<rparr>"

definition setReadyBit :: "u32 \<Rightarrow> MapTable \<Rightarrow> MapTable" where
  "setReadyBit p mt = mt\<lparr>readyBits := (readyBits mt)[unat p := True]\<rparr>"

text \<open>
  Modelled from the spec: class \<^verbatim>\<open>ReservationStation\<close>: type, fixed latency and the held
  instruction (the station is busy exactly when it holds one).
\<close>

record ReservationStation =
  rsType :: RSType
  rsExecTime :: nat
  rsInst :: "nat option"

definition new_ReservationStation :: "RSType \<Rightarrow> nat \<Rightarrow> ReservationStation" where
  "new_ReservationStation t l = \<lparr>rsType = t, rsExecTime = l, rsInst = None\<rparr>"

definition isBusy :: "ReservationStation \<Rightarrow> bool" where
  "isBusy r = (rsInst r \<noteq> None)"

text \<open>
  Modelled from the spec: class \<^verbatim>\<open>ReorderBuffer\<close>: a FIFO of entries (instruction, T, Told)
  of capacity \<^verbatim>\<open>robEntries\<close>; the head is the oldest entry.
\<close>

record ROBEntry =
  robInst :: nat
  robT :: PhysicalRegister
  robTold :: PhysicalRegister

text \<open>
  Modelled from the spec: the stage-queue class (its header is not among the sources), of
  which \<^verbatim>\<open>cpu.cpp\<close> uses \<^verbatim>\<open>push\<close>, \<^verbatim>\<open>front\<close>, \<^verbatim>\<open>pop\<close>, \<^verbatim>\<open>isEmpty\<close> and
  \<^verbatim>\<open>getAllInstructions\<close>. The spec calls the queues "width-bounded FIFO buffers", and the
  constructor passes \<^verbatim>\<open>width\<close> to each of them: under \<open>RefuseWhenFull\<close> a push on a queue
  that already holds \<^verbatim>\<open>width\<close> entries changes nothing and returns false. The comments of
  \<^verbatim>\<open>cpu.cpp\<close> say of the result of \<^verbatim>\<open>push\<close> that it "is always true in this project":
  under \<open>AlwaysAccept\<close> every push appends and returns true. Which of the two the absent class
  does cannot be read from the sources, so the policy is a parameter of the machine and the
  source's test of every push result is kept.
\<close>

datatype queuePolicy = RefuseWhenFull | AlwaysAccept

record CPU =
  pushPolicy :: queuePolicy
  numArchRegs :: nat
  numPhysicalRegs :: nat
  robEntries :: nat
  width :: nat
  instructionsList :: "Instruction list"
  archMappingTable :: MapTable
  mapTable :: MapTable
  rob :: "ROBEntry list"
  freeList :: "PhysicalRegister list"
  freePhysRegsPrevCycle :: "PhysicalRegister list"
  reservationStations :: "ReservationStation list"
  decodeStage :: "nat list"
  dispatchStage :: "nat list"
  executeStage :: "nat list"
  completeStage :: "nat list"
  fetchPtr :: nat
  isFetching :: bool
  hasProgress :: bool
  cycle :: nat
  traceLog :: "(nat \<times> stage \<times> nat) list"
  mapReads :: "u32 list"

text \<open>
  The last two fields make effects of the source explicit. \<open>traceLog\<close> is the diagnostic
  trace written to \<^verbatim>\<open>std::cerr\<close>: one line (cycle, stage, instruction) for every
  \<^verbatim>\<open>set...Cycle\<close> call of a stage procedure. \<open>mapReads\<close> lists the arguments of the calls
  \<^verbatim>\<open>mapTable.getMapping(...)\<close> in the order they are made.
\<close>

section \<open>Operations of the collaborating classes\<close>

definition updInst :: "nat \<Rightarrow> (Instruction \<Rightarrow> Instruction) \<Rightarrow> CPU \<Rightarrow> CPU" where
  "updInst i f s = s\<lparr>instructionsList := (instructionsList s)[i := f (instructionsList s ! i)]\<rparr>"

definition emit :: "stage \<Rightarrow> nat \<Rightarrow> CPU \<Rightarrow> CPU" where
  "emit st i s = s\<lparr>traceLog := traceLog s @ [(cycle s, st, i)]\<rparr>"

definition lookupMap :: "u32 \<Rightarrow> CPU \<Rightarrow> PhysicalRegister \<times> CPU" where
  "lookupMap a s = (getMapping (mapTable s) a, s\<lparr>mapReads := mapReads s @ [a]\<rparr>)"

text \<open>
  Modelled from the spec: class \<^verbatim>\<open>FreeList\<close>, the pool of physical registers beyond the
  architectural ones; registers are taken from the front and returned at the back.
\<close>

definition new_FreeList :: "nat \<Rightarrow> nat \<Rightarrow> PhysicalRegister list" where
  "new_FreeList nArch nPhys = map (\<lambda>n. \<lparr>regNum = of_nat n, ready = True\<rparr>) [nArch..<nPhys]"

definition hasRegister :: "CPU \<Rightarrow> bool" where
  "hasRegister s = (freeList s \<noteq> [])"

text \<open>Whether a push on the stage queue \<open>q\<close> succeeds (see \<open>queuePolicy\<close>).\<close>

definition pushAccepted :: "CPU \<Rightarrow> nat list \<Rightarrow> bool" where
  "pushAccepted s q = (pushPolicy s = AlwaysAccept \<or> length q < width s)"

definition rob_hasFreeEntry :: "CPU \<Rightarrow> bool" where
  "rob_hasFreeEntry s = (length (rob s) < robEntries s)"

text \<open>
  Modelled from the spec: \<^verbatim>\<open>ReservationStation::isReadyToExecute\<close>: the station holds an
  instruction and both present source physical registers are marked ready.
\<close>

definition srcReady :: "PhysicalRegister \<Rightarrow> bool" where
  "srcReady p = (regNum p = - 1 \<or> ready p)"

definition isReadyToExecute :: "Instruction list \<Rightarrow> ReservationStation \<Rightarrow> bool" where
  "isReadyToExecute il r =
     (case rsInst r of None \<Rightarrow> False
      | Some i \<Rightarrow> srcReady (srcPhysicalReg1 (il ! i)) \<and> srcReady (srcPhysicalReg2 (il ! i)))"

text \<open>
  Modelled from the spec: \<^verbatim>\<open>ReservationStation::broadcastRegReady\<close>: a station that holds
  an instruction marks each of its source physical registers with the broadcast number
  ready.
\<close>

definition markReady :: "u32 \<Rightarrow> PhysicalRegister \<Rightarrow> PhysicalRegister" where
  "markReady n p = (if regNum p = n then p\<lparr>ready := True\<rparr> else p)"

definition broadcastRegReady :: "u32 \<Rightarrow> ReservationStation \<Rightarrow> CPU \<Rightarrow> CPU" where
  "broadcastRegReady n r s =
     (case rsInst r of None \<Rightarrow> s
      | Some i \<Rightarrow>
          updInst i (\<lambda>x. x\<lparr>srcPhysicalReg1 := markReady n (srcPhysicalReg1 x),
                            srcPhysicalReg2 := markReady n (srcPhysicalReg2 x)\<rparr>) s)"

fun broadcastStations :: "u32 \<Rightarrow> ReservationStation list \<Rightarrow> CPU \<Rightarrow> CPU" where
  "broadcastStations n [] s = s"
| "broadcastStations n (r # rs) s = broadcastStations n rs (broadcastRegReady n r s)"

text \<open>A counted loop whose body may leave it: \<^verbatim>\<open>for (i = 0; i < n; i++) { ... break; ... }\<close>.\<close>

datatype 's ctl = Break 's | Continue 's

fun for_loop :: "nat \<Rightarrow> ('s \<Rightarrow> 's ctl) \<Rightarrow> 's \<Rightarrow> 's" where
  "for_loop 0 body s = s"
| "for_loop (Suc n) body s =
     (case body s of Break s' \<Rightarrow> s' | Continue s' \<Rightarrow> for_loop n body s')"

section \<open>The CPU: construction and program load\<close>

text \<open>
  The constructor. Its fifth argument, the number of load/store-queue entries, is stored
  and never read by \<^verbatim>\<open>cpu.cpp\<close>; it is left out. The stage queues that \<^verbatim>\<open>cpu.cpp\<close> never
  touches (fetch, issue, retire) are left out as well.
\<close>

definition new_CPU :: "queuePolicy \<Rightarrow> nat \<Rightarrow> nat \<Rightarrow> nat \<Rightarrow> nat \<Rightarrow> CPU" where
  "new_CPU pol nArch nPhys nRob w =
     \<lparr>pushPolicy = pol, numArchRegs = nArch, numPhysicalRegs = nPhys, robEntries = nRob, width = w,
      instructionsList = [],
      archMappingTable = new_MapTable nArch nPhys,
      mapTable = new_MapTable nArch nPhys,
      rob = [],
      freeList = new_FreeList nArch nPhys,
      freePhysRegsPrevCycle = [],
      reservationStations =
        [new_ReservationStation RSType_ALU 1, new_ReservationStation RSType_ALU 1,
         new_ReservationStation RSType_LOAD 2, new_ReservationStation RSType_STORE 2],
      decodeStage = [], dispatchStage = [], executeStage = [], completeStage = [],
      fetchPtr = 0, isFetching = True, hasProgress = False, cycle = 0,
      traceLog = [], mapReads = []\<rparr>"

definition addInstruction :: "RSType \<times> u32 \<times> u32 \<times> u32 \<Rightarrow> CPU \<Rightarrow> CPU" where
  "addInstruction x s =
     (case x of (k, s1, s2, d) \<Rightarrow>
        s\<lparr>instructionsList :=
            instructionsList s @ [new_Instruction (length (instructionsList s)) k s1 s2 d]\<rparr>)"

definition loadProgram :: "(RSType \<times> u32 \<times> u32 \<times> u32) list \<Rightarrow> CPU \<Rightarrow> CPU" where
  "loadProgram prog s = foldl (\<lambda>t x. addInstruction x t) s prog"

text \<open>The machine as \<^verbatim>\<open>simulate\<close> finds it: constructed, with the program added.\<close>

definition initial ::
  "queuePolicy \<Rightarrow> (RSType \<times> u32 \<times> u32 \<times> u32) list \<Rightarrow> nat \<Rightarrow> nat \<Rightarrow> nat \<Rightarrow> nat \<Rightarrow> CPU" where
  "initial pol prog nArch nPhys nRob w = loadProgram prog (new_CPU pol nArch nPhys nRob w)"

definition isFinished :: "CPU \<Rightarrow> bool" where
  "isFinished s = list_all hasRetired (instructionsList s)"

section \<open>The stage procedures\<close>

text \<open>
  Each stage is a loop of at most \<^verbatim>\<open>width\<close> iterations. The state change of an iteration
  that moves an instruction forward is a function of its own (\<open>fetch_inst\<close>,
  \<open>decode_inst\<close>, ...); the loop body decides between it, a \<^verbatim>\<open>break\<close> and an iteration
  that changes nothing. Where the source tests the result of a \<^verbatim>\<open>push\<close>, the body tests
  \<open>pushAccepted\<close> on the queue pushed to: a refused push leaves the queue as it is.
\<close>

subsection \<open>Fetch and decode\<close>

definition fetch_inst :: "CPU \<Rightarrow> CPU" where
  "fetch_inst s =
     (let p = fetchPtr s;
          s1 = s\<lparr>decodeStage := decodeStage s @ [p], hasProgress := True\<rparr>;
          s2 = emit Fetch p s1;
          s3 = updInst p (\<lambda>x. x\<lparr>fetchCycle := Some (cycle s)\<rparr>) s2;
          s4 = s3\<lparr>fetchPtr := p + 1\<rparr>
      in if length (instructionsList s4) \<le> fetchPtr s4 then s4\<lparr>isFetching := False\<rparr> else s4)"

definition fetch_body :: "CPU \<Rightarrow> CPU ctl" where
  "fetch_body s =
     (if \<not> isFetching s then Break s
      else if length (instructionsList s) \<le> fetchPtr s then Break (s\<lparr>isFetching := False\<rparr>)
      else if pushAccepted s (decodeStage s) then Continue (fetch_inst s)
      else Break s)"

definition fetch :: "CPU \<Rightarrow> CPU" where
  "fetch s = for_loop (width s) fetch_body s"

definition decode_inst :: "nat \<Rightarrow> CPU \<Rightarrow> CPU" where
  "decode_inst i s =
     (let s1 = s\<lparr>dispatchStage := dispatchStage s @ [i]\<rparr>;
          s2 = updInst i (\<lambda>x. x\<lparr>decodeCycle := Some (cycle s)\<rparr>) s1;
          s3 = emit Decode i s2
      in s3\<lparr>hasProgress := True, decodeStage := tl (decodeStage s3)\<rparr>)"

definition decode_body :: "CPU \<Rightarrow> CPU ctl" where
  "decode_body s =
     (case decodeStage s of [] \<Rightarrow> Break s
      | i # rest \<Rightarrow>
          if pushAccepted s (dispatchStage s) then Continue (decode_inst i s) else Break s)"

definition decode :: "CPU \<Rightarrow> CPU" where
  "decode s = for_loop (width s) decode_body s"

subsection \<open>Dispatch\<close>

fun findFreeRS :: "RSType \<Rightarrow> ReservationStation list \<Rightarrow> nat \<Rightarrow> nat option" where
  "findFreeRS t [] j = None"
| "findFreeRS t (r # rs) j =
     (if rsType r = t \<and> \<not> isBusy r then Some j else findFreeRS t rs (Suc j))"

definition dispatch_stalled :: "CPU \<Rightarrow> bool" where
  "dispatch_stalled s =
     (case dispatchStage s of [] \<Rightarrow> False
      | i # rest \<Rightarrow>
          \<not> rob_hasFreeEntry s
          \<or> findFreeRS (rsKind (instructionsList s ! i)) (reservationStations s) 0 = None
          \<or> (dstOp (instructionsList s ! i) \<noteq> - 1 \<and> \<not> hasRegister s))"

definition rename_dst :: "nat \<Rightarrow> CPU \<Rightarrow> (PhysicalRegister \<times> PhysicalRegister) \<times> CPU" where
  "rename_dst i s =
     (let d = dstOp (instructionsList s ! i) in
      if d \<noteq> - 1 then
        (let T = (hd (freeList s))\<lparr>ready := False\<rparr>;
             s1 = s\<lparr>freeList := tl (freeList s)\<rparr>;
             s2 = updInst i (\<lambda>x. x\<lparr>dstPhysicalReg := T\<rparr>) s1;
             (Told, s3) = lookupMap d s2;
             s4 = s3\<lparr>mapTable := setMapping d T (mapTable s3)\<rparr>
         in ((T, Told), s4))
      else ((noReg, noReg), updInst i (\<lambda>x. x\<lparr>dstPhysicalReg := noReg\<rparr>) s))"

definition rename_srcs :: "nat \<Rightarrow> CPU \<Rightarrow> CPU" where
  "rename_srcs i s =
     (let (p1, s1) = lookupMap (srcOp1 (instructionsList s ! i)) s;
          s2 = updInst i (\<lambda>x. x\<lparr>srcPhysicalReg1 := p1\<rparr>) s1
      in if srcOp2 (instructionsList s2 ! i) \<noteq> - 1
         then (let (p2, s3) = lookupMap (srcOp2 (instructionsList s2 ! i)) s2
               in updInst i (\<lambda>x. x\<lparr>srcPhysicalReg2 := p2\<rparr>) s3)
         else s2)"

definition dispatch_inst :: "nat \<Rightarrow> nat \<Rightarrow> CPU \<Rightarrow> CPU" where
  "dispatch_inst i j s =
     (let s1 = rename_srcs i s;
          ((T, Told), s2) = rename_dst i s1;
          s3 = updInst i (\<lambda>x. x\<lparr>renamed := True\<rparr>) s2;
          s4 = s3\<lparr>rob := rob s3 @ [\<lparr>robInst = i, robT = T, robTold = Told\<rparr>]\<rparr>;
          s5 = s4\<lparr>reservationStations :=
                    (reservationStations s4)
                      [j := (reservationStations s4 ! j)\<lparr>rsInst := Some i\<rparr>]\<rparr>;
          s6 = updInst i (\<lambda>x. x\<lparr>allocatedRs := Some j\<rparr>) s5;
          s7 = updInst i (\<lambda>x. x\<lparr>dispatchCycle := Some (cycle s)\<rparr>) s6;
          s8 = emit Dispatch i s7
      in s8\<lparr>hasProgress := True, dispatchStage := tl (dispatchStage s8)\<rparr>)"

definition dispatch_body :: "CPU \<Rightarrow> CPU ctl" where
  "dispatch_body s =
     (case dispatchStage s of [] \<Rightarrow> Break s
      | i # rest \<Rightarrow>
          if \<not> rob_hasFreeEntry s then Break s
          else
            (case findFreeRS (rsKind (instructionsList s ! i)) (reservationStations s) 0 of
               None \<Rightarrow> Break s
             | Some j \<Rightarrow>
                 if dstOp (instructionsList s ! i) \<noteq> - 1 \<and> \<not> hasRegister s then Break s
                 else Continue (dispatch_inst i j s)))"

definition dispatch :: "CPU \<Rightarrow> CPU" where
  "dispatch s = for_loop (width s) dispatch_body s"

subsection \<open>Issue\<close>

definition issue_inst :: "nat \<Rightarrow> CPU \<Rightarrow> CPU" where
  "issue_inst i s =
     (let s1 = s\<lparr>executeStage := executeStage s @ [i]\<rparr>;
          s2 = updInst i (\<lambda>x. x\<lparr>issueCycle := Some (cycle s)\<rparr>) s1;
          s3 = emit Issue i s2
      in s3\<lparr>hasProgress := True\<rparr>)"

definition issue_candidate :: "CPU \<Rightarrow> nat \<Rightarrow> bool" where
  "issue_candidate s j =
     (isReadyToExecute (instructionsList s) (reservationStations s ! j)
      \<and> (case rsInst (reservationStations s ! j) of None \<Rightarrow> False
         | Some i \<Rightarrow> \<not> hasIssued (instructionsList s ! i)))"

fun issue_stations :: "nat list \<Rightarrow> nat \<times> CPU \<Rightarrow> (nat \<times> CPU) ctl" where
  "issue_stations [] (wc, s) = Continue (wc, s)"
| "issue_stations (j # js) (wc, s) =
     (if issue_candidate s j
      then (if width s < wc + 1 then Break (wc + 1, s)
            else if pushAccepted s (executeStage s)
            then issue_stations js
                   (wc + 1, issue_inst (the (rsInst (reservationStations s ! j))) s)
            else issue_stations js (wc + 1, s))
      else issue_stations js (wc, s))"

definition issue_body :: "nat \<times> CPU \<Rightarrow> (nat \<times> CPU) ctl" where
  "issue_body x = issue_stations [0..<length (reservationStations (snd x))] x"

definition issue :: "CPU \<Rightarrow> CPU" where
  "issue s = snd (for_loop (width s) issue_body (0, s))"

subsection \<open>Execute\<close>

fun findRSOfType :: "RSType \<Rightarrow> ReservationStation list \<Rightarrow> ReservationStation option" where
  "findRSOfType t [] = None"
| "findRSOfType t (r # rs) = (if rsType r = t then Some r else findRSOfType t rs)"

definition freeRS :: "nat option \<Rightarrow> CPU \<Rightarrow> CPU" where
  "freeRS a s =
     (case a of None \<Rightarrow> s
      | Some j \<Rightarrow>
          s\<lparr>reservationStations :=
              (reservationStations s)[j := (reservationStations s ! j)\<lparr>rsInst := None\<rparr>]\<rparr>)"

definition execute_inst :: "nat \<Rightarrow> CPU \<Rightarrow> CPU" where
  "execute_inst i s =
     (let s1 = s\<lparr>completeStage := completeStage s @ [i]\<rparr>;
          s2 = updInst i (\<lambda>x. x\<lparr>executeCycle := Some (cycle s)\<rparr>) s1;
          l = (case findRSOfType (rsKind (instructionsList s2 ! i)) (reservationStations s2)
               of None \<Rightarrow> 0 | Some r \<Rightarrow> rsExecTime r);
          s3 = updInst i (\<lambda>x. x\<lparr>execTime := l\<rparr>) s2;
          s4 = freeRS (allocatedRs (instructionsList s3 ! i)) s3;
          s5 = emit Execute i s4
      in s5\<lparr>hasProgress := True, executeStage := tl (executeStage s5)\<rparr>)"

definition execute_body :: "CPU \<Rightarrow> CPU ctl" where
  "execute_body s =
     (case executeStage s of [] \<Rightarrow> Break s
      | i # rest \<Rightarrow>
          if pushAccepted s (completeStage s) then Continue (execute_inst i s) else Continue s)"

definition execute :: "CPU \<Rightarrow> CPU" where
  "execute s = for_loop (width s) execute_body s"

subsection \<open>Complete\<close>

definition deadlineReached :: "nat \<Rightarrow> Instruction \<Rightarrow> bool" where
  "deadlineReached c x =
     (case executeCycle x of None \<Rightarrow> False | Some e \<Rightarrow> e + execTime x \<le> c)"

definition erase_at :: "nat \<Rightarrow> 'a list \<Rightarrow> 'a list" where
  "erase_at j xs = take j xs @ drop (Suc j) xs"

definition complete_inst :: "nat \<Rightarrow> CPU \<Rightarrow> CPU" where
  "complete_inst j s =
     (let i = completeStage s ! j;
          n = regNum (dstPhysicalReg (instructionsList s ! i));
          s1 = broadcastStations n (reservationStations s) s;
          s2 = (if dstOp (instructionsList s1 ! i) \<noteq> - 1
                then s1\<lparr>mapTable := setReadyBit n (mapTable s1)\<rparr> else s1);
          s3 = updInst i (\<lambda>x. x\<lparr>completeCycle := Some (cycle s)\<rparr>) s2;
          s4 = s3\<lparr>completeStage := erase_at j (completeStage s3)\<rparr>;
          s5 = emit Complete i s4
      in s5\<lparr>hasProgress := True\<rparr>)"

lemma length_erase_at: "j < length xs \<Longrightarrow> length (erase_at j xs) = length xs - 1"
  by (simp add: erase_at_def)

lemma completeStage_updInst: "completeStage (updInst i f s) = completeStage s"
  by (simp add: updInst_def)

lemma completeStage_broadcast: "completeStage (broadcastRegReady n r s) = completeStage s"
  by (simp add: broadcastRegReady_def completeStage_updInst split: option.splits)

lemma completeStage_broadcast_all:
  "completeStage (broadcastStations n rs s) = completeStage s"
  by (induction rs arbitrary: s) (simp_all add: completeStage_broadcast)

lemma completeStage_complete_inst:
  "completeStage (complete_inst j s) = erase_at j (completeStage s)"
  by (simp add: complete_inst_def Let_def emit_def completeStage_updInst
      completeStage_broadcast_all)

function complete_scan :: "nat \<Rightarrow> CPU \<Rightarrow> CPU" where
  "complete_scan j s =
     (if j < length (completeStage s)
      then (if deadlineReached (cycle s) (instructionsList s ! (completeStage s ! j))
            then complete_scan (Suc j) (complete_inst j s)
            else complete_scan (Suc j) (s\<lparr>hasProgress := True\<rparr>))
      else s)"
  by pat_completeness auto
termination
  by (relation "measure (\<lambda>(j, s). length (completeStage s) - j)")
    (auto simp: completeStage_complete_inst length_erase_at)

declare complete_scan.simps [simp del]

definition complete_body :: "CPU \<Rightarrow> CPU ctl" where
  "complete_body s = (if completeStage s = [] then Break s else Continue (complete_scan 0 s))"

definition complete :: "CPU \<Rightarrow> CPU" where
  "complete s = for_loop (width s) complete_body s"

subsection \<open>Retire\<close>

definition retire_inst :: "ROBEntry \<Rightarrow> CPU \<Rightarrow> CPU" where
  "retire_inst e s =
     (let i = robInst e;
          s1 = s\<lparr>rob := tl (rob s)\<rparr>;
          d = dstOp (instructionsList s1 ! i);
          s2 = (if d \<noteq> - 1
                then s1\<lparr>archMappingTable :=
                          setMapping d (dstPhysicalReg (instructionsList s1 ! i))
                            (archMappingTable s1)\<rparr>
                else s1);
          s3 = (if d \<noteq> - 1
                then s2\<lparr>freePhysRegsPrevCycle := freePhysRegsPrevCycle s2 @ [robTold e]\<rparr>
                else s2);
          s4 = updInst i (\<lambda>x. x\<lparr>retireCycle := Some (cycle s)\<rparr>) s3;
          s5 = emit Retire i s4
      in s5\<lparr>hasProgress := True\<rparr>)"

definition retire_body :: "CPU \<Rightarrow> CPU ctl" where
  "retire_body s =
     (case rob s of [] \<Rightarrow> Break s
      | e # rest \<Rightarrow>
          if \<not> hasCompleted (instructionsList s ! robInst e) then Break s
          else Continue (retire_inst e s))"

definition retire :: "CPU \<Rightarrow> CPU" where
  "retire s = for_loop (width s) retire_body s"

subsection \<open>The cycle\<close>

definition admitFreed :: "CPU \<Rightarrow> CPU" where
  "admitFreed s =
     s\<lparr>freeList := freeList s @ freePhysRegsPrevCycle s, freePhysRegsPrevCycle := []\<rparr>"

definition tick :: "CPU \<Rightarrow> CPU" where
  "tick s = fetch (decode (dispatch (issue (execute (complete (retire (admitFreed s)))))))"

definition cycle_step :: "CPU \<Rightarrow> CPU" where
  "cycle_step s = (let s1 = tick (s\<lparr>hasProgress := False\<rparr>) in s1\<lparr>cycle := cycle s1 + 1\<rparr>)"

partial_function (option) simulate_loop :: "CPU \<Rightarrow> CPU option" where
  "simulate_loop s =
     (if \<not> isFinished s \<and> hasProgress s then simulate_loop (cycle_step s) else Some s)"

definition simulate :: "CPU \<Rightarrow> CPU option" where
  "simulate s = simulate_loop (s\<lparr>hasProgress := True\<rparr>)"


text \<open>The state after \<open>n\<close> further iterations of the loop body of \<^verbatim>\<open>simulate\<close>.\<close>

fun runCycles :: "nat \<Rightarrow> CPU \<Rightarrow> CPU" where
  "runCycles 0 s = s"
| "runCycles (Suc n) s = runCycles n (cycle_step s)"


section \<open>Effect of the per-instruction steps on every field\<close>

lemma nth_upd_gen:
  "(xs[i := x]) ! k = (if k = i \<and> i < length xs then x else xs ! k)"
proof (cases "i < length xs")
  case True
  then show ?thesis by (simp add: nth_list_update)
next
  case False
  then have "xs[i := x] = xs" by (simp add: list_update_beyond)
  then show ?thesis using False by simp
qed

lemma broadcastRegReady_proj:
  "pushPolicy (broadcastRegReady n r s) = pushPolicy s"
  "numArchRegs (broadcastRegReady n r s) = numArchRegs s"
  "numPhysicalRegs (broadcastRegReady n r s) = numPhysicalRegs s"
  "robEntries (broadcastRegReady n r s) = robEntries s"
  "width (broadcastRegReady n r s) = width s"
  "archMappingTable (broadcastRegReady n r s) = archMappingTable s"
  "mapTable (broadcastRegReady n r s) = mapTable s"
  "rob (broadcastRegReady n r s) = rob s"
  "freeList (broadcastRegReady n r s) = freeList s"
  "freePhysRegsPrevCycle (broadcastRegReady n r s) = freePhysRegsPrevCycle s"
  "reservationStations (broadcastRegReady n r s) = reservationStations s"
  "decodeStage (broadcastRegReady n r s) = decodeStage s"
  "dispatchStage (broadcastRegReady n r s) = dispatchStage s"
  "executeStage (broadcastRegReady n r s) = executeStage s"
  "completeStage (broadcastRegReady n r s) = completeStage s"
  "fetchPtr (broadcastRegReady n r s) = fetchPtr s"
  "isFetching (broadcastRegReady n r s) = isFetching s"
  "hasProgress (broadcastRegReady n r s) = hasProgress s"
  "cycle (broadcastRegReady n r s) = cycle s"
  "traceLog (broadcastRegReady n r s) = traceLog s"
  "mapReads (broadcastRegReady n r s) = mapReads s"
  "length (instructionsList (broadcastRegReady n r s)) = length (instructionsList s)"
  "fetchCycle (instructionsList (broadcastRegReady n r s) ! k) = fetchCycle (instructionsList s ! k)"
  "decodeCycle (instructionsList (broadcastRegReady n r s) ! k) = decodeCycle (instructionsList s ! k)"
  "dispatchCycle (instructionsList (broadcastRegReady n r s) ! k) = dispatchCycle (instructionsList s ! k)"
  "issueCycle (instructionsList (broadcastRegReady n r s) ! k) = issueCycle (instructionsList s ! k)"
  "executeCycle (instructionsList (broadcastRegReady n r s) ! k) = executeCycle (instructionsList s ! k)"
  "completeCycle (instructionsList (broadcastRegReady n r s) ! k) = completeCycle (instructionsList s ! k)"
  "retireCycle (instructionsList (broadcastRegReady n r s) ! k) = retireCycle (instructionsList s ! k)"
  "allocatedRs (instructionsList (broadcastRegReady n r s) ! k) = allocatedRs (instructionsList s ! k)"
  "dstOp (instructionsList (broadcastRegReady n r s) ! k) = dstOp (instructionsList s ! k)"
  "rsKind (instructionsList (broadcastRegReady n r s) ! k) = rsKind (instructionsList s ! k)"
  "execTime (instructionsList (broadcastRegReady n r s) ! k) = execTime (instructionsList s ! k)"
  "dstPhysicalReg (instructionsList (broadcastRegReady n r s) ! k) = dstPhysicalReg (instructionsList s ! k)"
  by (auto simp: broadcastRegReady_def updInst_def nth_upd_gen split: option.splits)

lemma broadcastStations_proj:
  "pushPolicy (broadcastStations n rs s) = pushPolicy s"
  "numArchRegs (broadcastStations n rs s) = numArchRegs s"
  "numPhysicalRegs (broadcastStations n rs s) = numPhysicalRegs s"
  "robEntries (broadcastStations n rs s) = robEntries s"
  "width (broadcastStations n rs s) = width s"
  "archMappingTable (broadcastStations n rs s) = archMappingTable s"
  "mapTable (broadcastStations n rs s) = mapTable s"
  "rob (broadcastStations n rs s) = rob s"
  "freeList (broadcastStations n rs s) = freeList s"
  "freePhysRegsPrevCycle (broadcastStations n rs s) = freePhysRegsPrevCycle s"
  "reservationStations (broadcastStations n rs s) = reservationStations s"
  "decodeStage (broadcastStations n rs s) = decodeStage s"
  "dispatchStage (broadcastStations n rs s) = dispatchStage s"
  "executeStage (broadcastStations n rs s) = executeStage s"
  "completeStage (broadcastStations n rs s) = completeStage s"
  "fetchPtr (broadcastStations n rs s) = fetchPtr s"
  "isFetching (broadcastStations n rs s) = isFetching s"
  "hasProgress (broadcastStations n rs s) = hasProgress s"
  "cycle (broadcastStations n rs s) = cycle s"
  "traceLog (broadcastStations n rs s) = traceLog s"
  "mapReads (broadcastStations n rs s) = mapReads s"
  "length (instructionsList (broadcastStations n rs s)) = length (instructionsList s)"
  "fetchCycle (instructionsList (broadcastStations n rs s) ! k) = fetchCycle (instructionsList s ! k)"
  "decodeCycle (instructionsList (broadcastStations n rs s) ! k) = decodeCycle (instructionsList s ! k)"
  "dispatchCycle (instructionsList (broadcastStations n rs s) ! k) = dispatchCycle (instructionsList s ! k)"
  "issueCycle (instructionsList (broadcastStations n rs s) ! k) = issueCycle (instructionsList s ! k)"
  "executeCycle (instructionsList (broadcastStations n rs s) ! k) = executeCycle (instructionsList s ! k)"
  "completeCycle (instructionsList (broadcastStations n rs s) ! k) = completeCycle (instructionsList s ! k)"
  "retireCycle (instructionsList (broadcastStations n rs s) ! k) = retireCycle (instructionsList s ! k)"
  "allocatedRs (instructionsList (broadcastStations n rs s) ! k) = allocatedRs (instructionsList s ! k)"
  "dstOp (instructionsList (broadcastStations n rs s) ! k) = dstOp (instructionsList s ! k)"
  "rsKind (instructionsList (broadcastStations n rs s) ! k) = rsKind (instructionsList s ! k)"
  "execTime (instructionsList (broadcastStations n rs s) ! k) = execTime (instructionsList s ! k)"
  "dstPhysicalReg (instructionsList (broadcastStations n rs s) ! k) = dstPhysicalReg (instructionsList s ! k)"
  by (induction rs arbitrary: s; simp add: broadcastRegReady_proj)+

lemma fetch_inst_proj:
  "pushPolicy (fetch_inst s) = pushPolicy s"
  "numArchRegs (fetch_inst s) = numArchRegs s"
  "numPhysicalRegs (fetch_inst s) = numPhysicalRegs s"
  "robEntries (fetch_inst s) = robEntries s"
  "width (fetch_inst s) = width s"
  "archMappingTable (fetch_inst s) = archMappingTable s"
  "mapTable (fetch_inst s) = mapTable s"
  "rob (fetch_inst s) = rob s"
  "freeList (fetch_inst s) = freeList s"
  "freePhysRegsPrevCycle (fetch_inst s) = freePhysRegsPrevCycle s"
  "reservationStations (fetch_inst s) = reservationStations s"
  "decodeStage (fetch_inst s) = decodeStage s @ [fetchPtr s]"
  "dispatchStage (fetch_inst s) = dispatchStage s"
  "executeStage (fetch_inst s) = executeStage s"
  "completeStage (fetch_inst s) = completeStage s"
  "fetchPtr (fetch_inst s) = fetchPtr s + 1"
  "isFetching (fetch_inst s) = (if length (instructionsList s) \<le> fetchPtr s + 1 then False else isFetching s)"
  "hasProgress (fetch_inst s) = True"
  "cycle (fetch_inst s) = cycle s"
  "traceLog (fetch_inst s) = traceLog s @ [(cycle s, Fetch, fetchPtr s)]"
  "mapReads (fetch_inst s) = mapReads s"
  "length (instructionsList (fetch_inst s)) = length (instructionsList s)"
  by (auto simp: fetch_inst_def Let_def emit_def updInst_def nth_upd_gen)

lemma fetch_inst_nth:
  "fetchCycle (instructionsList (fetch_inst s) ! k) =
     (if k = fetchPtr s \<and> k < length (instructionsList s) then Some (cycle s) else fetchCycle (instructionsList s ! k))"
  "decodeCycle (instructionsList (fetch_inst s) ! k) = decodeCycle (instructionsList s ! k)"
  "dispatchCycle (instructionsList (fetch_inst s) ! k) = dispatchCycle (instructionsList s ! k)"
  "issueCycle (instructionsList (fetch_inst s) ! k) = issueCycle (instructionsList s ! k)"
  "executeCycle (instructionsList (fetch_inst s) ! k) = executeCycle (instructionsList s ! k)"
  "completeCycle (instructionsList (fetch_inst s) ! k) = completeCycle (instructionsList s ! k)"
  "retireCycle (instructionsList (fetch_inst s) ! k) = retireCycle (instructionsList s ! k)"
  "allocatedRs (instructionsList (fetch_inst s) ! k) = allocatedRs (instructionsList s ! k)"
  "dstOp (instructionsList (fetch_inst s) ! k) = dstOp (instructionsList s ! k)"
  "rsKind (instructionsList (fetch_inst s) ! k) = rsKind (instructionsList s ! k)"
  "execTime (instructionsList (fetch_inst s) ! k) = execTime (instructionsList s ! k)"
  by (auto simp: fetch_inst_def Let_def emit_def updInst_def nth_upd_gen)

lemma decode_inst_proj:
  "pushPolicy (decode_inst i s) = pushPolicy s"
  "numArchRegs (decode_inst i s) = numArchRegs s"
  "numPhysicalRegs (decode_inst i s) = numPhysicalRegs s"
  "robEntries (decode_inst i s) = robEntries s"
  "width (decode_inst i s) = width s"
  "archMappingTable (decode_inst i s) = archMappingTable s"
  "mapTable (decode_inst i s) = mapTable s"
  "rob (decode_inst i s) = rob s"
  "freeList (decode_inst i s) = freeList s"
  "freePhysRegsPrevCycle (decode_inst i s) = freePhysRegsPrevCycle s"
  "reservationStations (decode_inst i s) = reservationStations s"
  "decodeStage (decode_inst i s) = tl (decodeStage s)"
  "dispatchStage (decode_inst i s) = dispatchStage s @ [i]"
  "executeStage (decode_inst i s) = executeStage s"
  "completeStage (decode_inst i s) = completeStage s"
  "fetchPtr (decode_inst i s) = fetchPtr s"
  "isFetching (decode_inst i s) = isFetching s"
  "hasProgress (decode_inst i s) = True"
  "cycle (decode_inst i s) = cycle s"
  "traceLog (decode_inst i s) = traceLog s @ [(cycle s, Decode, i)]"
  "mapReads (decode_inst i s) = mapReads s"
  "length (instructionsList (decode_inst i s)) = length (instructionsList s)"
  by (auto simp: decode_inst_def Let_def emit_def updInst_def nth_upd_gen)

lemma decode_inst_nth:
  "fetchCycle (instructionsList (decode_inst i s) ! k) = fetchCycle (instructionsList s ! k)"
  "decodeCycle (instructionsList (decode_inst i s) ! k) =
     (if k = i \<and> k < length (instructionsList s) then Some (cycle s) else decodeCycle (instructionsList s ! k))"
  "dispatchCycle (instructionsList (decode_inst i s) ! k) = dispatchCycle (instructionsList s ! k)"
  "issueCycle (instructionsList (decode_inst i s) ! k) = issueCycle (instructionsList s ! k)"
  "executeCycle (instructionsList (decode_inst i s) ! k) = executeCycle (instructionsList s ! k)"
  "completeCycle (instructionsList (decode_inst i s) ! k) = completeCycle (instructionsList s ! k)"
  "retireCycle (instructionsList (decode_inst i s) ! k) = retireCycle (instructionsList s ! k)"
  "allocatedRs (instructionsList (decode_inst i s) ! k) = allocatedRs (instructionsList s ! k)"
  "dstOp (instructionsList (decode_inst i s) ! k) = dstOp (instructionsList s ! k)"
  "rsKind (instructionsList (decode_inst i s) ! k) = rsKind (instructionsList s ! k)"
  "execTime (instructionsList (decode_inst i s) ! k) = execTime (instructionsList s ! k)"
  by (auto simp: decode_inst_def Let_def emit_def updInst_def nth_upd_gen)

lemma issue_inst_proj:
  "pushPolicy (issue_inst i s) = pushPolicy s"
  "numArchRegs (issue_inst i s) = numArchRegs s"
  "numPhysicalRegs (issue_inst i s) = numPhysicalRegs s"
  "robEntries (issue_inst i s) = robEntries s"
  "width (issue_inst i s) = width s"
  "archMappingTable (issue_inst i s) = archMappingTable s"
  "mapTable (issue_inst i s) = mapTable s"
  "rob (issue_inst i s) = rob s"
  "freeList (issue_inst i s) = freeList s"
  "freePhysRegsPrevCycle (issue_inst i s) = freePhysRegsPrevCycle s"
  "reservationStations (issue_inst i s) = reservationStations s"
  "decodeStage (issue_inst i s) = decodeStage s"
  "dispatchStage (issue_inst i s) = dispatchStage s"
  "executeStage (issue_inst i s) = executeStage s @ [i]"
  "completeStage (issue_inst i s) = completeStage s"
  "fetchPtr (issue_inst i s) = fetchPtr s"
  "isFetching (issue_inst i s) = isFetching s"
  "hasProgress (issue_inst i s) = True"
  "cycle (issue_inst i s) = cycle s"
  "traceLog (issue_inst i s) = traceLog s @ [(cycle s, Issue, i)]"
  "mapReads (issue_inst i s) = mapReads s"
  "length (instructionsList (issue_inst i s)) = length (instructionsList s)"
  by (auto simp: issue_inst_def Let_def emit_def updInst_def nth_upd_gen)

lemma issue_inst_nth:
  "fetchCycle (instructionsList (issue_inst i s) ! k) = fetchCycle (instructionsList s ! k)"
  "decodeCycle (instructionsList (issue_inst i s) ! k) = decodeCycle (instructionsList s ! k)"
  "dispatchCycle (instructionsList (issue_inst i s) ! k) = dispatchCycle (instructionsList s ! k)"
  "issueCycle (instructionsList (issue_inst i s) ! k) =
     (if k = i \<and> k < length (instructionsList s) then Some (cycle s) else issueCycle (instructionsList s ! k))"
  "executeCycle (instructionsList (issue_inst i s) ! k) = executeCycle (instructionsList s ! k)"
  "completeCycle (instructionsList (issue_inst i s) ! k) = completeCycle (instructionsList s ! k)"
  "retireCycle (instructionsList (issue_inst i s) ! k) = retireCycle (instructionsList s ! k)"
  "allocatedRs (instructionsList (issue_inst i s) ! k) = allocatedRs (instructionsList s ! k)"
  "dstOp (instructionsList (issue_inst i s) ! k) = dstOp (instructionsList s ! k)"
  "rsKind (instructionsList (issue_inst i s) ! k) = rsKind (instructionsList s ! k)"
  "execTime (instructionsList (issue_inst i s) ! k) = execTime (instructionsList s ! k)"
  by (auto simp: issue_inst_def Let_def emit_def updInst_def nth_upd_gen)

lemma retire_inst_proj:
  "pushPolicy (retire_inst e s) = pushPolicy s"
  "numArchRegs (retire_inst e s) = numArchRegs s"
  "numPhysicalRegs (retire_inst e s) = numPhysicalRegs s"
  "robEntries (retire_inst e s) = robEntries s"
  "width (retire_inst e s) = width s"
  "archMappingTable (retire_inst e s) = (if dstOp (instructionsList s ! robInst e) \<noteq> - 1
      then setMapping (dstOp (instructionsList s ! robInst e))
             (dstPhysicalReg (instructionsList s ! robInst e)) (archMappingTable s)
      else archMappingTable s)"
  "mapTable (retire_inst e s) = mapTable s"
  "rob (retire_inst e s) = tl (rob s)"
  "freeList (retire_inst e s) = freeList s"
  "freePhysRegsPrevCycle (retire_inst e s) = (if dstOp (instructionsList s ! robInst e) \<noteq> - 1
      then freePhysRegsPrevCycle s @ [robTold e] else freePhysRegsPrevCycle s)"
  "reservationStations (retire_inst e s) = reservationStations s"
  "decodeStage (retire_inst e s) = decodeStage s"
  "dispatchStage (retire_inst e s) = dispatchStage s"
  "executeStage (retire_inst e s) = executeStage s"
  "completeStage (retire_inst e s) = completeStage s"
  "fetchPtr (retire_inst e s) = fetchPtr s"
  "isFetching (retire_inst e s) = isFetching s"
  "hasProgress (retire_inst e s) = True"
  "cycle (retire_inst e s) = cycle s"
  "traceLog (retire_inst e s) = traceLog s @ [(cycle s, Retire, robInst e)]"
  "mapReads (retire_inst e s) = mapReads s"
  "length (instructionsList (retire_inst e s)) = length (instructionsList s)"
  by (auto simp: retire_inst_def Let_def emit_def updInst_def nth_upd_gen)

lemma retire_inst_nth:
  "fetchCycle (instructionsList (retire_inst e s) ! k) = fetchCycle (instructionsList s ! k)"
  "decodeCycle (instructionsList (retire_inst e s) ! k) = decodeCycle (instructionsList s ! k)"
  "dispatchCycle (instructionsList (retire_inst e s) ! k) = dispatchCycle (instructionsList s ! k)"
  "issueCycle (instructionsList (retire_inst e s) ! k) = issueCycle (instructionsList s ! k)"
  "executeCycle (instructionsList (retire_inst e s) ! k) = executeCycle (instructionsList s ! k)"
  "completeCycle (instructionsList (retire_inst e s) ! k) = completeCycle (instructionsList s ! k)"
  "retireCycle (instructionsList (retire_inst e s) ! k) =
     (if k = robInst e \<and> k < length (instructionsList s) then Some (cycle s) else retireCycle (instructionsList s ! k))"
  "allocatedRs (instructionsList (retire_inst e s) ! k) = allocatedRs (instructionsList s ! k)"
  "dstOp (instructionsList (retire_inst e s) ! k) = dstOp (instructionsList s ! k)"
  "rsKind (instructionsList (retire_inst e s) ! k) = rsKind (instructionsList s ! k)"
  "execTime (instructionsList (retire_inst e s) ! k) = execTime (instructionsList s ! k)"
  by (auto simp: retire_inst_def Let_def emit_def updInst_def nth_upd_gen)

lemma execute_inst_proj:
  "pushPolicy (execute_inst i s) = pushPolicy s"
  "numArchRegs (execute_inst i s) = numArchRegs s"
  "numPhysicalRegs (execute_inst i s) = numPhysicalRegs s"
  "robEntries (execute_inst i s) = robEntries s"
  "width (execute_inst i s) = width s"
  "archMappingTable (execute_inst i s) = archMappingTable s"
  "mapTable (execute_inst i s) = mapTable s"
  "rob (execute_inst i s) = rob s"
  "freeList (execute_inst i s) = freeList s"
  "freePhysRegsPrevCycle (execute_inst i s) = freePhysRegsPrevCycle s"
  "reservationStations (execute_inst i s) = (case allocatedRs (instructionsList s ! i) of None \<Rightarrow> reservationStations s
      | Some j \<Rightarrow> (reservationStations s)[j := (reservationStations s ! j)\<lparr>rsInst := None\<rparr>])"
  "decodeStage (execute_inst i s) = decodeStage s"
  "dispatchStage (execute_inst i s) = dispatchStage s"
  "executeStage (execute_inst i s) = tl (executeStage s)"
  "completeStage (execute_inst i s) = completeStage s @ [i]"
  "fetchPtr (execute_inst i s) = fetchPtr s"
  "isFetching (execute_inst i s) = isFetching s"
  "hasProgress (execute_inst i s) = True"
  "cycle (execute_inst i s) = cycle s"
  "traceLog (execute_inst i s) = traceLog s @ [(cycle s, Execute, i)]"
  "mapReads (execute_inst i s) = mapReads s"
  "length (instructionsList (execute_inst i s)) = length (instructionsList s)"
  by (auto simp: execute_inst_def freeRS_def Let_def emit_def updInst_def nth_upd_gen split: option.splits)

lemma execute_inst_nth:
  "fetchCycle (instructionsList (execute_inst i s) ! k) = fetchCycle (instructionsList s ! k)"
  "decodeCycle (instructionsList (execute_inst i s) ! k) = decodeCycle (instructionsList s ! k)"
  "dispatchCycle (instructionsList (execute_inst i s) ! k) = dispatchCycle (instructionsList s ! k)"
  "issueCycle (instructionsList (execute_inst i s) ! k) = issueCycle (instructionsList s ! k)"
  "executeCycle (instructionsList (execute_inst i s) ! k) =
     (if k = i \<and> k < length (instructionsList s) then Some (cycle s) else executeCycle (instructionsList s ! k))"
  "completeCycle (instructionsList (execute_inst i s) ! k) = completeCycle (instructionsList s ! k)"
  "retireCycle (instructionsList (execute_inst i s) ! k) = retireCycle (instructionsList s ! k)"
  "allocatedRs (instructionsList (execute_inst i s) ! k) = allocatedRs (instructionsList s ! k)"
  "dstOp (instructionsList (execute_inst i s) ! k) = dstOp (instructionsList s ! k)"
  "rsKind (instructionsList (execute_inst i s) ! k) = rsKind (instructionsList s ! k)"
  "execTime (instructionsList (execute_inst i s) ! k) =
     (if k = i \<and> k < length (instructionsList s) then (case findRSOfType (rsKind (instructionsList s ! k)) (reservationStations s)
                     of None \<Rightarrow> 0 | Some r \<Rightarrow> rsExecTime r) else execTime (instructionsList s ! k))"
  by (auto simp: execute_inst_def freeRS_def Let_def emit_def updInst_def nth_upd_gen split: option.splits)

definition dispT :: "nat \<Rightarrow> CPU \<Rightarrow> PhysicalRegister" where
  "dispT i s =
     (if dstOp (instructionsList s ! i) \<noteq> - 1 then (hd (freeList s))\<lparr>ready := False\<rparr> else noReg)"

definition dispTold :: "nat \<Rightarrow> CPU \<Rightarrow> PhysicalRegister" where
  "dispTold i s =
     (if dstOp (instructionsList s ! i) \<noteq> - 1
      then getMapping (mapTable s) (dstOp (instructionsList s ! i)) else noReg)"

definition dispReads :: "Instruction \<Rightarrow> u32 list" where
  "dispReads x =
     srcOp1 x # (if srcOp2 x \<noteq> - 1 then [srcOp2 x] else [])
       @ (if dstOp x \<noteq> - 1 then [dstOp x] else [])"

lemma rename_srcs_proj:
  "pushPolicy (rename_srcs i s) = pushPolicy s"
  "numArchRegs (rename_srcs i s) = numArchRegs s"
  "numPhysicalRegs (rename_srcs i s) = numPhysicalRegs s"
  "robEntries (rename_srcs i s) = robEntries s"
  "width (rename_srcs i s) = width s"
  "archMappingTable (rename_srcs i s) = archMappingTable s"
  "mapTable (rename_srcs i s) = mapTable s"
  "rob (rename_srcs i s) = rob s"
  "freeList (rename_srcs i s) = freeList s"
  "freePhysRegsPrevCycle (rename_srcs i s) = freePhysRegsPrevCycle s"
  "reservationStations (rename_srcs i s) = reservationStations s"
  "decodeStage (rename_srcs i s) = decodeStage s"
  "dispatchStage (rename_srcs i s) = dispatchStage s"
  "executeStage (rename_srcs i s) = executeStage s"
  "completeStage (rename_srcs i s) = completeStage s"
  "fetchPtr (rename_srcs i s) = fetchPtr s"
  "isFetching (rename_srcs i s) = isFetching s"
  "hasProgress (rename_srcs i s) = hasProgress s"
  "cycle (rename_srcs i s) = cycle s"
  "traceLog (rename_srcs i s) = traceLog s"
  "mapReads (rename_srcs i s) = mapReads s @ srcOp1 (instructionsList s ! i) # (if srcOp2 (instructionsList s ! i) \<noteq> - 1 then [srcOp2 (instructionsList s ! i)] else [])"
  "length (instructionsList (rename_srcs i s)) = length (instructionsList s)"
  "fetchCycle (instructionsList (rename_srcs i s) ! k) = fetchCycle (instructionsList s ! k)"
  "decodeCycle (instructionsList (rename_srcs i s) ! k) = decodeCycle (instructionsList s ! k)"
  "dispatchCycle (instructionsList (rename_srcs i s) ! k) = dispatchCycle (instructionsList s ! k)"
  "issueCycle (instructionsList (rename_srcs i s) ! k) = issueCycle (instructionsList s ! k)"
  "executeCycle (instructionsList (rename_srcs i s) ! k) = executeCycle (instructionsList s ! k)"
  "completeCycle (instructionsList (rename_srcs i s) ! k) = completeCycle (instructionsList s ! k)"
  "retireCycle (instructionsList (rename_srcs i s) ! k) = retireCycle (instructionsList s ! k)"
  "allocatedRs (instructionsList (rename_srcs i s) ! k) = allocatedRs (instructionsList s ! k)"
  "dstOp (instructionsList (rename_srcs i s) ! k) = dstOp (instructionsList s ! k)"
  "rsKind (instructionsList (rename_srcs i s) ! k) = rsKind (instructionsList s ! k)"
  "execTime (instructionsList (rename_srcs i s) ! k) = execTime (instructionsList s ! k)"
  "srcOp1 (instructionsList (rename_srcs i s) ! k) = srcOp1 (instructionsList s ! k)"
  "srcOp2 (instructionsList (rename_srcs i s) ! k) = srcOp2 (instructionsList s ! k)"
  "dstPhysicalReg (instructionsList (rename_srcs i s) ! k) = dstPhysicalReg (instructionsList s ! k)"
  by (simp_all add: rename_srcs_def lookupMap_def Let_def updInst_def nth_upd_gen)

lemma rename_srcs_disp:
  "dispT i (rename_srcs i s) = dispT i s"
  "dispTold i (rename_srcs i s) = dispTold i s"
  by (simp_all add: dispT_def dispTold_def rename_srcs_proj)

lemma rename_dst_proj:
  "fst (rename_dst i s) = (dispT i s, dispTold i s)"
  "pushPolicy (snd (rename_dst i s)) = pushPolicy s"
  "numArchRegs (snd (rename_dst i s)) = numArchRegs s"
  "numPhysicalRegs (snd (rename_dst i s)) = numPhysicalRegs s"
  "robEntries (snd (rename_dst i s)) = robEntries s"
  "width (snd (rename_dst i s)) = width s"
  "archMappingTable (snd (rename_dst i s)) = archMappingTable s"
  "mapTable (snd (rename_dst i s)) = (if dstOp (instructionsList s ! i) \<noteq> - 1
      then setMapping (dstOp (instructionsList s ! i)) (dispT i s) (mapTable s) else mapTable s)"
  "rob (snd (rename_dst i s)) = rob s"
  "freeList (snd (rename_dst i s)) = (if dstOp (instructionsList s ! i) \<noteq> - 1 then tl (freeList s) else freeList s)"
  "freePhysRegsPrevCycle (snd (rename_dst i s)) = freePhysRegsPrevCycle s"
  "reservationStations (snd (rename_dst i s)) = reservationStations s"
  "decodeStage (snd (rename_dst i s)) = decodeStage s"
  "dispatchStage (snd (rename_dst i s)) = dispatchStage s"
  "executeStage (snd (rename_dst i s)) = executeStage s"
  "completeStage (snd (rename_dst i s)) = completeStage s"
  "fetchPtr (snd (rename_dst i s)) = fetchPtr s"
  "isFetching (snd (rename_dst i s)) = isFetching s"
  "hasProgress (snd (rename_dst i s)) = hasProgress s"
  "cycle (snd (rename_dst i s)) = cycle s"
  "traceLog (snd (rename_dst i s)) = traceLog s"
  "mapReads (snd (rename_dst i s)) = mapReads s @ (if dstOp (instructionsList s ! i) \<noteq> - 1 then [dstOp (instructionsList s ! i)] else [])"
  "length (instructionsList (snd (rename_dst i s))) = length (instructionsList s)"
  "fetchCycle (instructionsList (snd (rename_dst i s)) ! k) = fetchCycle (instructionsList s ! k)"
  "decodeCycle (instructionsList (snd (rename_dst i s)) ! k) = decodeCycle (instructionsList s ! k)"
  "dispatchCycle (instructionsList (snd (rename_dst i s)) ! k) = dispatchCycle (instructionsList s ! k)"
  "issueCycle (instructionsList (snd (rename_dst i s)) ! k) = issueCycle (instructionsList s ! k)"
  "executeCycle (instructionsList (snd (rename_dst i s)) ! k) = executeCycle (instructionsList s ! k)"
  "completeCycle (instructionsList (snd (rename_dst i s)) ! k) = completeCycle (instructionsList s ! k)"
  "retireCycle (instructionsList (snd (rename_dst i s)) ! k) = retireCycle (instructionsList s ! k)"
  "allocatedRs (instructionsList (snd (rename_dst i s)) ! k) = allocatedRs (instructionsList s ! k)"
  "dstOp (instructionsList (snd (rename_dst i s)) ! k) = dstOp (instructionsList s ! k)"
  "rsKind (instructionsList (snd (rename_dst i s)) ! k) = rsKind (instructionsList s ! k)"
  "execTime (instructionsList (snd (rename_dst i s)) ! k) = execTime (instructionsList s ! k)"
  "srcOp1 (instructionsList (snd (rename_dst i s)) ! k) = srcOp1 (instructionsList s ! k)"
  "srcOp2 (instructionsList (snd (rename_dst i s)) ! k) = srcOp2 (instructionsList s ! k)"
  by (simp_all add: rename_dst_def lookupMap_def Let_def updInst_def nth_upd_gen dispT_def dispTold_def)

lemma dispatch_inst_proj:
  "pushPolicy (dispatch_inst i j s) = pushPolicy s"
  "numArchRegs (dispatch_inst i j s) = numArchRegs s"
  "numPhysicalRegs (dispatch_inst i j s) = numPhysicalRegs s"
  "robEntries (dispatch_inst i j s) = robEntries s"
  "width (dispatch_inst i j s) = width s"
  "archMappingTable (dispatch_inst i j s) = archMappingTable s"
  "mapTable (dispatch_inst i j s) = (if dstOp (instructionsList s ! i) \<noteq> - 1
      then setMapping (dstOp (instructionsList s ! i)) (dispT i s) (mapTable s) else mapTable s)"
  "rob (dispatch_inst i j s) = rob s @ [\<lparr>robInst = i, robT = dispT i s, robTold = dispTold i s\<rparr>]"
  "freeList (dispatch_inst i j s) = (if dstOp (instructionsList s ! i) \<noteq> - 1 then tl (freeList s) else freeList s)"
  "freePhysRegsPrevCycle (dispatch_inst i j s) = freePhysRegsPrevCycle s"
  "reservationStations (dispatch_inst i j s) = (reservationStations s)[j := (reservationStations s ! j)\<lparr>rsInst := Some i\<rparr>]"
  "decodeStage (dispatch_inst i j s) = decodeStage s"
  "dispatchStage (dispatch_inst i j s) = tl (dispatchStage s)"
  "executeStage (dispatch_inst i j s) = executeStage s"
  "completeStage (dispatch_inst i j s) = completeStage s"
  "fetchPtr (dispatch_inst i j s) = fetchPtr s"
  "isFetching (dispatch_inst i j s) = isFetching s"
  "hasProgress (dispatch_inst i j s) = True"
  "cycle (dispatch_inst i j s) = cycle s"
  "traceLog (dispatch_inst i j s) = traceLog s @ [(cycle s, Dispatch, i)]"
  "mapReads (dispatch_inst i j s) = mapReads s @ dispReads (instructionsList s ! i)"
  "length (instructionsList (dispatch_inst i j s)) = length (instructionsList s)"
  by (simp_all add: dispatch_inst_def rename_srcs_proj rename_srcs_disp rename_dst_proj dispReads_def split_def Let_def emit_def updInst_def nth_upd_gen)

lemma dispatch_inst_nth:
  "fetchCycle (instructionsList (dispatch_inst i j s) ! k) = fetchCycle (instructionsList s ! k)"
  "decodeCycle (instructionsList (dispatch_inst i j s) ! k) = decodeCycle (instructionsList s ! k)"
  "dispatchCycle (instructionsList (dispatch_inst i j s) ! k) =
     (if k = i \<and> k < length (instructionsList s) then Some (cycle s) else dispatchCycle (instructionsList s ! k))"
  "issueCycle (instructionsList (dispatch_inst i j s) ! k) = issueCycle (instructionsList s ! k)"
  "executeCycle (instructionsList (dispatch_inst i j s) ! k) = executeCycle (instructionsList s ! k)"
  "completeCycle (instructionsList (dispatch_inst i j s) ! k) = completeCycle (instructionsList s ! k)"
  "retireCycle (instructionsList (dispatch_inst i j s) ! k) = retireCycle (instructionsList s ! k)"
  "allocatedRs (instructionsList (dispatch_inst i j s) ! k) =
     (if k = i \<and> k < length (instructionsList s) then Some j else allocatedRs (instructionsList s ! k))"
  "dstOp (instructionsList (dispatch_inst i j s) ! k) = dstOp (instructionsList s ! k)"
  "rsKind (instructionsList (dispatch_inst i j s) ! k) = rsKind (instructionsList s ! k)"
  "execTime (instructionsList (dispatch_inst i j s) ! k) = execTime (instructionsList s ! k)"
  by (simp_all add: dispatch_inst_def rename_srcs_proj rename_srcs_disp rename_dst_proj dispReads_def split_def Let_def emit_def updInst_def nth_upd_gen)

lemma complete_inst_proj:
  "pushPolicy (complete_inst j s) = pushPolicy s"
  "numArchRegs (complete_inst j s) = numArchRegs s"
  "numPhysicalRegs (complete_inst j s) = numPhysicalRegs s"
  "robEntries (complete_inst j s) = robEntries s"
  "width (complete_inst j s) = width s"
  "archMappingTable (complete_inst j s) = archMappingTable s"
  "mapTable (complete_inst j s) = (if dstOp (instructionsList s ! (completeStage s ! j)) \<noteq> - 1
      then setReadyBit (regNum (dstPhysicalReg (instructionsList s ! (completeStage s ! j)))) (mapTable s)
      else mapTable s)"
  "rob (complete_inst j s) = rob s"
  "freeList (complete_inst j s) = freeList s"
  "freePhysRegsPrevCycle (complete_inst j s) = freePhysRegsPrevCycle s"
  "reservationStations (complete_inst j s) = reservationStations s"
  "decodeStage (complete_inst j s) = decodeStage s"
  "dispatchStage (complete_inst j s) = dispatchStage s"
  "executeStage (complete_inst j s) = executeStage s"
  "completeStage (complete_inst j s) = erase_at j (completeStage s)"
  "fetchPtr (complete_inst j s) = fetchPtr s"
  "isFetching (complete_inst j s) = isFetching s"
  "hasProgress (complete_inst j s) = True"
  "cycle (complete_inst j s) = cycle s"
  "traceLog (complete_inst j s) = traceLog s @ [(cycle s, Complete, completeStage s ! j)]"
  "mapReads (complete_inst j s) = mapReads s"
  "length (instructionsList (complete_inst j s)) = length (instructionsList s)"
  by (auto simp: complete_inst_def broadcastStations_proj Let_def emit_def updInst_def nth_upd_gen)

lemma complete_inst_nth:
  "fetchCycle (instructionsList (complete_inst j s) ! k) = fetchCycle (instructionsList s ! k)"
  "decodeCycle (instructionsList (complete_inst j s) ! k) = decodeCycle (instructionsList s ! k)"
  "dispatchCycle (instructionsList (complete_inst j s) ! k) = dispatchCycle (instructionsList s ! k)"
  "issueCycle (instructionsList (complete_inst j s) ! k) = issueCycle (instructionsList s ! k)"
  "executeCycle (instructionsList (complete_inst j s) ! k) = executeCycle (instructionsList s ! k)"
  "completeCycle (instructionsList (complete_inst j s) ! k) =
     (if k = completeStage s ! j \<and> k < length (instructionsList s) then Some (cycle s) else completeCycle (instructionsList s ! k))"
  "retireCycle (instructionsList (complete_inst j s) ! k) = retireCycle (instructionsList s ! k)"
  "allocatedRs (instructionsList (complete_inst j s) ! k) = allocatedRs (instructionsList s ! k)"
  "dstOp (instructionsList (complete_inst j s) ! k) = dstOp (instructionsList s ! k)"
  "rsKind (instructionsList (complete_inst j s) ! k) = rsKind (instructionsList s ! k)"
  "execTime (instructionsList (complete_inst j s) ! k) = execTime (instructionsList s ! k)"
  by (auto simp: complete_inst_def broadcastStations_proj Let_def emit_def updInst_def nth_upd_gen)

lemma issue_inst_srcs:
  "srcPhysicalReg1 (instructionsList (issue_inst i s) ! k) = srcPhysicalReg1 (instructionsList s ! k)"
  "srcPhysicalReg2 (instructionsList (issue_inst i s) ! k) = srcPhysicalReg2 (instructionsList s ! k)"
  by (auto simp: issue_inst_def Let_def emit_def updInst_def nth_upd_gen)

section \<open>Loops\<close>

lemma for_loop_induct:
  assumes "P s"
    and "\<And>t t'. P t \<Longrightarrow> body t = Continue t' \<Longrightarrow> P t'"
    and "\<And>t t'. P t \<Longrightarrow> body t = Break t' \<Longrightarrow> P t'"
  shows "P (for_loop n body s)"
  using assms(1)
proof (induction n arbitrary: s)
  case 0
  then show ?case by simp
next
  case (Suc n)
  show ?case
  proof (cases "body s")
    case (Break t)
    then show ?thesis using assms(3) [OF Suc.prems Break] by simp
  next
    case (Continue t)
    then show ?thesis using Suc.IH [OF assms(2) [OF Suc.prems Continue]] by simp
  qed
qed

lemma for_loop_Break_stable:
  "body (for_loop k body s) = Break (for_loop k body s) \<Longrightarrow>
   for_loop (k + m) body s = for_loop k body s"
proof (induction k arbitrary: s)
  case 0
  then show ?case by (cases m) simp_all
next
  case (Suc k)
  then show ?case by (cases "body s") simp_all
qed

lemma runCycles_Suc: "runCycles (Suc n) s = cycle_step (runCycles n s)"
  by (induction n arbitrary: s) simp_all

section \<open>The initial state\<close>

lemma addInstruction_proj:
  "pushPolicy (addInstruction x s) = pushPolicy s"
  "numArchRegs (addInstruction x s) = numArchRegs s"
  "numPhysicalRegs (addInstruction x s) = numPhysicalRegs s"
  "robEntries (addInstruction x s) = robEntries s"
  "width (addInstruction x s) = width s"
  "archMappingTable (addInstruction x s) = archMappingTable s"
  "mapTable (addInstruction x s) = mapTable s"
  "rob (addInstruction x s) = rob s"
  "freeList (addInstruction x s) = freeList s"
  "freePhysRegsPrevCycle (addInstruction x s) = freePhysRegsPrevCycle s"
  "reservationStations (addInstruction x s) = reservationStations s"
  "decodeStage (addInstruction x s) = decodeStage s"
  "dispatchStage (addInstruction x s) = dispatchStage s"
  "executeStage (addInstruction x s) = executeStage s"
  "completeStage (addInstruction x s) = completeStage s"
  "fetchPtr (addInstruction x s) = fetchPtr s"
  "isFetching (addInstruction x s) = isFetching s"
  "hasProgress (addInstruction x s) = hasProgress s"
  "cycle (addInstruction x s) = cycle s"
  "traceLog (addInstruction x s) = traceLog s"
  "mapReads (addInstruction x s) = mapReads s"
  by (simp_all add: addInstruction_def split: prod.splits)

lemma loadProgram_proj:
  "pushPolicy (loadProgram prog s) = pushPolicy s"
  "numArchRegs (loadProgram prog s) = numArchRegs s"
  "numPhysicalRegs (loadProgram prog s) = numPhysicalRegs s"
  "robEntries (loadProgram prog s) = robEntries s"
  "width (loadProgram prog s) = width s"
  "archMappingTable (loadProgram prog s) = archMappingTable s"
  "mapTable (loadProgram prog s) = mapTable s"
  "rob (loadProgram prog s) = rob s"
  "freeList (loadProgram prog s) = freeList s"
  "freePhysRegsPrevCycle (loadProgram prog s) = freePhysRegsPrevCycle s"
  "reservationStations (loadProgram prog s) = reservationStations s"
  "decodeStage (loadProgram prog s) = decodeStage s"
  "dispatchStage (loadProgram prog s) = dispatchStage s"
  "executeStage (loadProgram prog s) = executeStage s"
  "completeStage (loadProgram prog s) = completeStage s"
  "fetchPtr (loadProgram prog s) = fetchPtr s"
  "isFetching (loadProgram prog s) = isFetching s"
  "hasProgress (loadProgram prog s) = hasProgress s"
  "cycle (loadProgram prog s) = cycle s"
  "traceLog (loadProgram prog s) = traceLog s"
  "mapReads (loadProgram prog s) = mapReads s"
  by (induction prog arbitrary: s; simp add: loadProgram_def addInstruction_proj)+

lemma loadProgram_Cons: "loadProgram (x # prog) s = loadProgram prog (addInstruction x s)"
  by (simp add: loadProgram_def)

lemma loadProgram_length:
  "length (instructionsList (loadProgram prog s)) = length (instructionsList s) + length prog"
  by (induction prog arbitrary: s) (auto simp: loadProgram_def addInstruction_def split: prod.splits)

lemma loadProgram_all:
  assumes "\<forall>x \<in> set (instructionsList s). P x"
    and "\<And>n k s1 s2 d. (k, s1, s2, d) \<in> set prog \<Longrightarrow> P (new_Instruction n k s1 s2 d)"
  shows "\<forall>x \<in> set (instructionsList (loadProgram prog s)). P x"
  using assms
proof (induction prog arbitrary: s)
  case Nil
  then show ?case by (simp add: loadProgram_def)
next
  case (Cons x prog)
  obtain k s1 s2 d where x: "x = (k, s1, s2, d)" by (cases x) auto
  have "\<forall>y \<in> set (instructionsList (addInstruction x s)). P y"
    using Cons.prems by (auto simp: addInstruction_def x)
  then show ?case
    unfolding loadProgram_Cons using Cons.prems(2) by (intro Cons.IH) auto
qed

lemma new_CPU_proj:
  "pushPolicy (new_CPU pol nA nP nR w) = pol"
  "numArchRegs (new_CPU pol nA nP nR w) = nA"
  "numPhysicalRegs (new_CPU pol nA nP nR w) = nP"
  "robEntries (new_CPU pol nA nP nR w) = nR"
  "width (new_CPU pol nA nP nR w) = w"
  "instructionsList (new_CPU pol nA nP nR w) = []"
  "archMappingTable (new_CPU pol nA nP nR w) = new_MapTable nA nP"
  "mapTable (new_CPU pol nA nP nR w) = new_MapTable nA nP"
  "rob (new_CPU pol nA nP nR w) = []"
  "freeList (new_CPU pol nA nP nR w) = new_FreeList nA nP"
  "freePhysRegsPrevCycle (new_CPU pol nA nP nR w) = []"
  "reservationStations (new_CPU pol nA nP nR w) =
     [new_ReservationStation RSType_ALU 1, new_ReservationStation RSType_ALU 1,
      new_ReservationStation RSType_LOAD 2, new_ReservationStation RSType_STORE 2]"
  "decodeStage (new_CPU pol nA nP nR w) = []"
  "dispatchStage (new_CPU pol nA nP nR w) = []"
  "executeStage (new_CPU pol nA nP nR w) = []"
  "completeStage (new_CPU pol nA nP nR w) = []"
  "fetchPtr (new_CPU pol nA nP nR w) = 0"
  "isFetching (new_CPU pol nA nP nR w) = True"
  "hasProgress (new_CPU pol nA nP nR w) = False"
  "cycle (new_CPU pol nA nP nR w) = 0"
  "traceLog (new_CPU pol nA nP nR w) = []"
  "mapReads (new_CPU pol nA nP nR w) = []"
  by (simp_all add: new_CPU_def)

lemmas initial_proj = loadProgram_proj [of _ "new_CPU pol nA nP nR w" for pol nA nP nR w,
    folded initial_def, unfolded new_CPU_proj]

lemma initial_fresh:
  "\<forall>x \<in> set (instructionsList (initial pol prog nA nP nR w)).
     fetchCycle x = None \<and> decodeCycle x = None \<and> dispatchCycle x = None \<and> issueCycle x = None
     \<and> executeCycle x = None \<and> completeCycle x = None \<and> retireCycle x = None
     \<and> allocatedRs x = None"
  unfolding initial_def
  by (rule loadProgram_all) (simp_all add: new_CPU_proj new_Instruction_def)

lemma runCycles_add: "runCycles (m + n) s = runCycles n (runCycles m s)"
  by (induction m arbitrary: s) simp_all

section \<open>Every stage is a sequence of per-instruction steps\<close>

text \<open>
  One relation per stage: the state changes a single iteration of the stage's loop can
  make, together with the condition under which the source makes them.
\<close>

definition retire_step :: "CPU \<Rightarrow> CPU \<Rightarrow> bool" where
  "retire_step s t =
     (\<exists>e rest. rob s = e # rest \<and> hasCompleted (instructionsList s ! robInst e)
        \<and> t = retire_inst e s)"

definition complete_step :: "CPU \<Rightarrow> CPU \<Rightarrow> bool" where
  "complete_step s t =
     ((\<exists>j. j < length (completeStage s)
          \<and> deadlineReached (cycle s) (instructionsList s ! (completeStage s ! j))
          \<and> t = complete_inst j s)
      \<or> t = s\<lparr>hasProgress := True\<rparr>)"

definition execute_step :: "CPU \<Rightarrow> CPU \<Rightarrow> bool" where
  "execute_step s t =
     (\<exists>i rest. executeStage s = i # rest \<and> pushAccepted s (completeStage s)
        \<and> t = execute_inst i s)"

definition issue_step :: "CPU \<Rightarrow> CPU \<Rightarrow> bool" where
  "issue_step s t =
     (\<exists>j i. j < length (reservationStations s) \<and> rsInst (reservationStations s ! j) = Some i
        \<and> \<not> hasIssued (instructionsList s ! i) \<and> t = issue_inst i s)"

definition dispatch_step :: "CPU \<Rightarrow> CPU \<Rightarrow> bool" where
  "dispatch_step s t =
     (\<exists>i rest j. dispatchStage s = i # rest \<and> rob_hasFreeEntry s
        \<and> findFreeRS (rsKind (instructionsList s ! i)) (reservationStations s) 0 = Some j
        \<and> (dstOp (instructionsList s ! i) \<noteq> - 1 \<longrightarrow> hasRegister s)
        \<and> t = dispatch_inst i j s)"

definition decode_step :: "CPU \<Rightarrow> CPU \<Rightarrow> bool" where
  "decode_step s t = (\<exists>i rest. decodeStage s = i # rest \<and> t = decode_inst i s)"

definition fetch_step :: "CPU \<Rightarrow> CPU \<Rightarrow> bool" where
  "fetch_step s t =
     ((fetchPtr s < length (instructionsList s) \<and> t = fetch_inst s)
      \<or> t = s\<lparr>isFetching := False\<rparr>)"

lemma for_loop_steps:
  assumes "\<And>t t'. body t = Continue t' \<or> body t = Break t' \<Longrightarrow> R\<^sup>*\<^sup>* t t'"
  shows "R\<^sup>*\<^sup>* s (for_loop n body s)"
proof (rule for_loop_induct [where P = "\<lambda>t. R\<^sup>*\<^sup>* s t"])
  show "R\<^sup>*\<^sup>* s s" by simp
next
  fix t t' assume "R\<^sup>*\<^sup>* s t" "body t = Continue t'"
  then show "R\<^sup>*\<^sup>* s t'" using assms [of t t'] by auto
next
  fix t t' assume "R\<^sup>*\<^sup>* s t" "body t = Break t'"
  then show "R\<^sup>*\<^sup>* s t'" using assms [of t t'] by auto
qed

lemma steps_preserve:
  assumes "R\<^sup>*\<^sup>* s t" and "P s" and "\<And>a b. P a \<Longrightarrow> R a b \<Longrightarrow> P b"
  shows "P t"
  using assms(1,2) by (induction rule: rtranclp_induct) (auto intro: assms(3))

lemma retire_steps: "retire_step\<^sup>*\<^sup>* s (retire s)"
  unfolding retire_def
proof (rule for_loop_steps)
  fix t t' assume "retire_body t = Continue t' \<or> retire_body t = Break t'"
  then show "retire_step\<^sup>*\<^sup>* t t'"
    by (auto simp: retire_body_def retire_step_def split: list.splits if_splits)
qed

lemma execute_steps: "execute_step\<^sup>*\<^sup>* s (execute s)"
  unfolding execute_def
proof (rule for_loop_steps)
  fix t t' assume "execute_body t = Continue t' \<or> execute_body t = Break t'"
  then show "execute_step\<^sup>*\<^sup>* t t'"
    by (auto simp: execute_body_def execute_step_def split: list.splits if_splits)
qed

lemma decode_steps: "decode_step\<^sup>*\<^sup>* s (decode s)"
  unfolding decode_def
proof (rule for_loop_steps)
  fix t t' assume "decode_body t = Continue t' \<or> decode_body t = Break t'"
  then show "decode_step\<^sup>*\<^sup>* t t'"
    by (auto simp: decode_body_def decode_step_def split: list.splits if_splits)
qed

lemma fetch_steps: "fetch_step\<^sup>*\<^sup>* s (fetch s)"
  unfolding fetch_def
proof (rule for_loop_steps)
  fix t t' assume "fetch_body t = Continue t' \<or> fetch_body t = Break t'"
  then show "fetch_step\<^sup>*\<^sup>* t t'"
    by (auto simp: fetch_body_def fetch_step_def split: if_splits)
qed

lemma dispatch_steps: "dispatch_step\<^sup>*\<^sup>* s (dispatch s)"
  unfolding dispatch_def
proof (rule for_loop_steps)
  fix t t' assume "dispatch_body t = Continue t' \<or> dispatch_body t = Break t'"
  then show "dispatch_step\<^sup>*\<^sup>* t t'"
    by (auto simp: dispatch_body_def dispatch_step_def split: list.splits if_splits option.splits)
qed

lemma complete_scan_steps: "complete_step\<^sup>*\<^sup>* s (complete_scan j s)"
proof (induction j s rule: complete_scan.induct)
  case (1 j s)
  show ?case
  proof (cases "j < length (completeStage s)")
    case False
    then show ?thesis by (subst complete_scan.simps) simp
  next
    case True
    show ?thesis
    proof (cases "deadlineReached (cycle s) (instructionsList s ! (completeStage s ! j))")
      case d: True
      have "complete_step s (complete_inst j s)"
        using True d by (auto simp: complete_step_def)
      moreover have "complete_step\<^sup>*\<^sup>* (complete_inst j s) (complete_scan (Suc j) (complete_inst j s))"
        using "1.IH"(1) [OF True d] .
      ultimately show ?thesis
        using True d by (subst complete_scan.simps) simp
    next
      case d: False
      have "complete_step s (s\<lparr>hasProgress := True\<rparr>)"
        by (simp add: complete_step_def)
      moreover have "complete_step\<^sup>*\<^sup>* (s\<lparr>hasProgress := True\<rparr>)
                       (complete_scan (Suc j) (s\<lparr>hasProgress := True\<rparr>))"
        using "1.IH"(2) [OF True d] .
      ultimately show ?thesis
        using True d by (subst complete_scan.simps) simp
    qed
  qed
qed

lemma complete_steps: "complete_step\<^sup>*\<^sup>* s (complete s)"
  unfolding complete_def
proof (rule for_loop_steps)
  fix t t' assume "complete_body t = Continue t' \<or> complete_body t = Break t'"
  then show "complete_step\<^sup>*\<^sup>* t t'"
    by (auto simp: complete_body_def complete_scan_steps split: if_splits)
qed

lemma issue_stations_steps:
  assumes "\<forall>j \<in> set js. j < length (reservationStations s)"
    and "issue_stations js (wc, s) = Continue (wc', t) \<or> issue_stations js (wc, s) = Break (wc', t)"
  shows "issue_step\<^sup>*\<^sup>* s t"
  using assms
proof (induction js arbitrary: wc s)
  case Nil
  then show ?case by auto
next
  case (Cons j js)
  show ?case
  proof (cases "issue_candidate s j")
    case False
    then show ?thesis using Cons.IH [of s wc] Cons.prems by simp
  next
    case True
    show ?thesis
    proof (cases "width s < wc + 1")
      case w: True
      then show ?thesis using True Cons.prems by auto
    next
      case w: False
      from True obtain i where i: "rsInst (reservationStations s ! j) = Some i"
        "\<not> hasIssued (instructionsList s ! i)"
        by (auto simp: issue_candidate_def split: option.splits)
      show ?thesis
      proof (cases "pushAccepted s (executeStage s)")
        case a: True
        have st: "issue_step s (issue_inst i s)"
          using i Cons.prems(1) by (auto simp: issue_step_def)
        have "issue_step\<^sup>*\<^sup>* (issue_inst i s) t"
          using Cons.IH [of "issue_inst i s" "wc + 1"] Cons.prems True w i a
          by (simp add: issue_inst_proj)
        then show ?thesis using st by auto
      next
        case a: False
        show ?thesis
          using Cons.IH [of s "wc + 1"] Cons.prems True w a by simp
      qed
    qed
  qed
qed

lemma issue_steps: "issue_step\<^sup>*\<^sup>* s (issue s)"
proof -
  have "issue_step\<^sup>*\<^sup>* s (snd (for_loop n issue_body (wc, s)))" for n wc
  proof (rule for_loop_induct [where P = "\<lambda>x. issue_step\<^sup>*\<^sup>* s (snd x)"])
    show "issue_step\<^sup>*\<^sup>* s (snd (wc, s))" by simp
  next
    fix x x' assume a: "issue_step\<^sup>*\<^sup>* s (snd x)" "issue_body x = Continue x'"
    have "issue_step\<^sup>*\<^sup>* (snd x) (snd x')"
      using issue_stations_steps [of "[0..<length (reservationStations (snd x))]" "snd x" "fst x" "fst x'" "snd x'"]
        a(2) by (simp add: issue_body_def)
    then show "issue_step\<^sup>*\<^sup>* s (snd x')" using a(1) by auto
  next
    fix x x' assume a: "issue_step\<^sup>*\<^sup>* s (snd x)" "issue_body x = Break x'"
    have "issue_step\<^sup>*\<^sup>* (snd x) (snd x')"
      using issue_stations_steps [of "[0..<length (reservationStations (snd x))]" "snd x" "fst x" "fst x'" "snd x'"]
        a(2) by (simp add: issue_body_def)
    then show "issue_step\<^sup>*\<^sup>* s (snd x')" using a(1) by auto
  qed
  then show ?thesis by (simp add: issue_def)
qed

section \<open>Invariants of a cycle\<close>

text \<open>The state after the free-list admission and the first \<open>k\<close> stages of a cycle.\<close>

fun tickPrefix :: "nat \<Rightarrow> CPU \<Rightarrow> CPU" where
  "tickPrefix 0 s = admitFreed s"
| "tickPrefix (Suc k) s =
     (if k = 0 then retire (tickPrefix k s)
      else if k = 1 then complete (tickPrefix k s)
      else if k = 2 then execute (tickPrefix k s)
      else if k = 3 then issue (tickPrefix k s)
      else if k = 4 then dispatch (tickPrefix k s)
      else if k = 5 then decode (tickPrefix k s)
      else if k = 6 then fetch (tickPrefix k s)
      else tickPrefix k s)"

lemma tick_tickPrefix: "tick s = tickPrefix 7 s"
  by (simp add: tick_def eval_nat_numeral)

lemma tickPrefix_1: "tickPrefix 1 s = retire (admitFreed s)"
  by (simp add: eval_nat_numeral)

lemma tickPrefix_2: "tickPrefix 2 s = complete (retire (admitFreed s))"
  by (simp add: eval_nat_numeral)

text \<open>
  A property that the free-list admission and every per-instruction step preserve holds
  after any number of stages of a cycle, and, if the reset of the progress flag and the
  increment of the cycle counter preserve it too, after any number of cycles.
\<close>

lemma tickPrefix_preserve:
  assumes "P s"
    and "\<And>a. P a \<Longrightarrow> P (admitFreed a)"
    and "\<And>a b. P a \<Longrightarrow> retire_step a b \<Longrightarrow> P b"
    and "\<And>a b. P a \<Longrightarrow> complete_step a b \<Longrightarrow> P b"
    and "\<And>a b. P a \<Longrightarrow> execute_step a b \<Longrightarrow> P b"
    and "\<And>a b. P a \<Longrightarrow> issue_step a b \<Longrightarrow> P b"
    and "\<And>a b. P a \<Longrightarrow> dispatch_step a b \<Longrightarrow> P b"
    and "\<And>a b. P a \<Longrightarrow> decode_step a b \<Longrightarrow> P b"
    and "\<And>a b. P a \<Longrightarrow> fetch_step a b \<Longrightarrow> P b"
  shows "P (tickPrefix k s)"
proof (induction k)
  case 0
  show ?case using assms(1) by (simp add: assms(2))
next
  case (Suc k)
  have p: "P (tickPrefix k s)" by (rule Suc.IH)
  have "P (retire (tickPrefix k s))"
    by (rule steps_preserve [where P = P, OF retire_steps p]) (rule assms(3))
  moreover have "P (complete (tickPrefix k s))"
    by (rule steps_preserve [where P = P, OF complete_steps p]) (rule assms(4))
  moreover have "P (execute (tickPrefix k s))"
    by (rule steps_preserve [where P = P, OF execute_steps p]) (rule assms(5))
  moreover have "P (issue (tickPrefix k s))"
    by (rule steps_preserve [where P = P, OF issue_steps p]) (rule assms(6))
  moreover have "P (dispatch (tickPrefix k s))"
    by (rule steps_preserve [where P = P, OF dispatch_steps p]) (rule assms(7))
  moreover have "P (decode (tickPrefix k s))"
    by (rule steps_preserve [where P = P, OF decode_steps p]) (rule assms(8))
  moreover have "P (fetch (tickPrefix k s))"
    by (rule steps_preserve [where P = P, OF fetch_steps p]) (rule assms(9))
  ultimately show ?case using p by auto
qed

lemma runCycles_preserve:
  assumes "P s"
    and "\<And>a. P a \<Longrightarrow> P (a\<lparr>hasProgress := False\<rparr>)"
    and "\<And>a. P a \<Longrightarrow> P (a\<lparr>cycle := cycle a + 1\<rparr>)"
    and "\<And>a. P a \<Longrightarrow> P (admitFreed a)"
    and "\<And>a b. P a \<Longrightarrow> retire_step a b \<Longrightarrow> P b"
    and "\<And>a b. P a \<Longrightarrow> complete_step a b \<Longrightarrow> P b"
    and "\<And>a b. P a \<Longrightarrow> execute_step a b \<Longrightarrow> P b"
    and "\<And>a b. P a \<Longrightarrow> issue_step a b \<Longrightarrow> P b"
    and "\<And>a b. P a \<Longrightarrow> dispatch_step a b \<Longrightarrow> P b"
    and "\<And>a b. P a \<Longrightarrow> decode_step a b \<Longrightarrow> P b"
    and "\<And>a b. P a \<Longrightarrow> fetch_step a b \<Longrightarrow> P b"
  shows "P (runCycles n s)"
  using assms(1)
proof (induction n arbitrary: s)
  case 0
  then show ?case by simp
next
  case (Suc n)
  have "P (s\<lparr>hasProgress := False\<rparr>)" using Suc.prems by (rule assms(2))
  then have "P (tickPrefix 7 (s\<lparr>hasProgress := False\<rparr>))"
    by (rule tickPrefix_preserve) (fact assms(4-11))+
  then have "P (cycle_step s)"
    unfolding cycle_step_def Let_def tick_tickPrefix by (rule assms(3))
  then show ?case using Suc.IH by simp
qed

text \<open>
  The same for a property that depends on the number of stages that have started: \<open>P k\<close>
  is to hold while stage \<open>k\<close> runs and until the next stage starts.
\<close>

lemma phased_prefix:
  assumes "P 0 s" and "k \<le> 7"
    and "\<And>k a. P k a \<Longrightarrow> P (Suc k) a"
    and "\<And>a. P 0 a \<Longrightarrow> P 0 (admitFreed a)"
    and "\<And>a b. P 1 a \<Longrightarrow> retire_step a b \<Longrightarrow> P 1 b"
    and "\<And>a b. P 2 a \<Longrightarrow> complete_step a b \<Longrightarrow> P 2 b"
    and "\<And>a b. P 3 a \<Longrightarrow> execute_step a b \<Longrightarrow> P 3 b"
    and "\<And>a b. P 4 a \<Longrightarrow> issue_step a b \<Longrightarrow> P 4 b"
    and "\<And>a b. P 5 a \<Longrightarrow> dispatch_step a b \<Longrightarrow> P 5 b"
    and "\<And>a b. P 6 a \<Longrightarrow> decode_step a b \<Longrightarrow> P 6 b"
    and "\<And>a b. P 7 a \<Longrightarrow> fetch_step a b \<Longrightarrow> P 7 b"
  shows "P k (tickPrefix k s)"
  using assms(2)
proof (induction k)
  case 0
  show ?case using assms(1) by (simp add: assms(4))
next
  case (Suc k)
  then have p: "P (Suc k) (tickPrefix k s)" by (simp add: assms(3))
  from Suc.prems consider "k = 0" | "k = 1" | "k = 2" | "k = 3" | "k = 4" | "k = 5" | "k = 6"
    by linarith
  then show ?case
  proof cases
    case 1
    have "P 1 (retire (tickPrefix 0 s))"
      by (rule steps_preserve [where P = "P 1", OF retire_steps])
         (use p 1 in simp, rule assms(5))
    then show ?thesis using 1 by simp
  next
    case 2
    have "P 2 (complete (tickPrefix 1 s))"
      by (rule steps_preserve [where P = "P 2", OF complete_steps])
         (use p 2 in \<open>simp add: eval_nat_numeral\<close>, rule assms(6))
    then show ?thesis using 2 by (simp add: eval_nat_numeral)
  next
    case 3
    have "P 3 (execute (tickPrefix 2 s))"
      by (rule steps_preserve [where P = "P 3", OF execute_steps])
         (use p 3 in \<open>simp add: eval_nat_numeral\<close>, rule assms(7))
    then show ?thesis using 3 by (simp add: eval_nat_numeral)
  next
    case 4
    have "P 4 (issue (tickPrefix 3 s))"
      by (rule steps_preserve [where P = "P 4", OF issue_steps])
         (use p 4 in \<open>simp add: eval_nat_numeral\<close>, rule assms(8))
    then show ?thesis using 4 by (simp add: eval_nat_numeral)
  next
    case 5
    have "P 5 (dispatch (tickPrefix 4 s))"
      by (rule steps_preserve [where P = "P 5", OF dispatch_steps])
         (use p 5 in \<open>simp add: eval_nat_numeral\<close>, rule assms(9))
    then show ?thesis using 5 by (simp add: eval_nat_numeral)
  next
    case 6
    have "P 6 (decode (tickPrefix 5 s))"
      by (rule steps_preserve [where P = "P 6", OF decode_steps])
         (use p 6 in \<open>simp add: eval_nat_numeral\<close>, rule assms(10))
    then show ?thesis using 6 by (simp add: eval_nat_numeral)
  next
    case 7
    have "P 7 (fetch (tickPrefix 6 s))"
      by (rule steps_preserve [where P = "P 7", OF fetch_steps])
         (use p 7 in \<open>simp add: eval_nat_numeral\<close>, rule assms(11))
    then show ?thesis using 7 by (simp add: eval_nat_numeral)
  qed
qed

lemma phased_run:
  assumes "P 0 s"
    and "\<And>a. P 0 a \<Longrightarrow> P 0 (a\<lparr>hasProgress := False\<rparr>)"
    and "\<And>a. P 7 a \<Longrightarrow> P 0 (a\<lparr>cycle := cycle a + 1\<rparr>)"
    and "\<And>k a. P k a \<Longrightarrow> P (Suc k) a"
    and "\<And>a. P 0 a \<Longrightarrow> P 0 (admitFreed a)"
    and "\<And>a b. P 1 a \<Longrightarrow> retire_step a b \<Longrightarrow> P 1 b"
    and "\<And>a b. P 2 a \<Longrightarrow> complete_step a b \<Longrightarrow> P 2 b"
    and "\<And>a b. P 3 a \<Longrightarrow> execute_step a b \<Longrightarrow> P 3 b"
    and "\<And>a b. P 4 a \<Longrightarrow> issue_step a b \<Longrightarrow> P 4 b"
    and "\<And>a b. P 5 a \<Longrightarrow> dispatch_step a b \<Longrightarrow> P 5 b"
    and "\<And>a b. P 6 a \<Longrightarrow> decode_step a b \<Longrightarrow> P 6 b"
    and "\<And>a b. P 7 a \<Longrightarrow> fetch_step a b \<Longrightarrow> P 7 b"
  shows "P 0 (runCycles n s)"
  using assms(1)
proof (induction n arbitrary: s)
  case 0
  then show ?case by simp
next
  case (Suc n)
  have "P 0 (s\<lparr>hasProgress := False\<rparr>)" using Suc.prems by (rule assms(2))
  then have "P 7 (tickPrefix 7 (s\<lparr>hasProgress := False\<rparr>))"
    by (rule phased_prefix [where P = P]) (simp, (fact assms(4-12))+)
  then have "P 0 (cycle_step s)"
    unfolding cycle_step_def Let_def tick_tickPrefix by (rule assms(3))
  then show ?case using Suc.IH by simp
qed

section \<open>Dispatch stalls\<close>

lemma dispatch_stalled_Break: "dispatch_stalled s \<Longrightarrow> dispatch_body s = Break s"
  unfolding dispatch_stalled_def dispatch_body_def
  by (cases "dispatchStage s") (auto split: option.splits)

text \<open>
  C5. When a dispatch precondition fails for the instruction at the head of the dispatch
  queue (no free ROB entry, no free reservation station of its type, or a destination and
  an empty free list), the dispatch loop leaves the state exactly as it is, whatever number
  of iterations remains: after \<open>k\<close> iterations that reached a stalled state, the result of
  the whole stage is that state, so the free list, the map table, the ROB, the reservation
  stations and the dispatch queue are those of the stalled state.
\<close>

theorem dispatch_stall_freezes:
  assumes "k \<le> width s" and "dispatch_stalled (for_loop k dispatch_body s)"
  shows "dispatch_body (for_loop k dispatch_body s) = Break (for_loop k dispatch_body s)
       \<and> (\<forall>m. for_loop (k + m) dispatch_body s = for_loop k dispatch_body s)
       \<and> dispatch s = for_loop k dispatch_body s
       \<and> freeList (dispatch s) = freeList (for_loop k dispatch_body s)
       \<and> mapTable (dispatch s) = mapTable (for_loop k dispatch_body s)
       \<and> rob (dispatch s) = rob (for_loop k dispatch_body s)
       \<and> reservationStations (dispatch s) = reservationStations (for_loop k dispatch_body s)
       \<and> dispatchStage (dispatch s) = dispatchStage (for_loop k dispatch_body s)"
proof -
  let ?t = "for_loop k dispatch_body s"
  have b: "dispatch_body ?t = Break ?t"
    using assms(2) by (rule dispatch_stalled_Break)
  have st: "for_loop (k + m) dispatch_body s = ?t" for m
    using b by (rule for_loop_Break_stable)
  from assms(1) obtain m where m: "width s = k + m"
    using le_Suc_ex by blast
  have "dispatch s = for_loop (k + m) dispatch_body s"
    by (simp add: dispatch_def m)
  then have "dispatch s = ?t"
    using st by simp
  then show ?thesis using b st by simp
qed

definition stallState :: CPU where
  "stallState = issue (execute (complete (retire (admitFreed
     ((runCycles 2 (loadProgram [(RSType_LOAD, 0, - 1, 1), (RSType_LOAD, 0, - 1, 2)]
        (new_CPU RefuseWhenFull 4 8 8 2)))\<lparr>hasProgress := False\<rparr>)))))"

theorem dispatch_stall_freezes_witness:
  "1 \<le> width stallState \<and> dispatch_stalled (for_loop 1 dispatch_body stallState)
   \<and> dispatchStage stallState = [0, 1]
   \<and> dispatchStage (for_loop 1 dispatch_body stallState) = [1]
   \<and> dispatch stallState = for_loop 1 dispatch_body stallState
   \<and> dispatchStage (dispatch stallState) = [1]"
proof -
  have h1: "1 \<le> width stallState" by code_simp
  have h2: "dispatch_stalled (for_loop 1 dispatch_body stallState)" by code_simp
  have h3: "dispatchStage stallState = [0, 1]" by code_simp
  have h4: "dispatchStage (for_loop 1 dispatch_body stallState) = [1]" by code_simp
  show ?thesis using h1 h2 h3 h4 dispatch_stall_freezes [OF h1 h2] by simp
qed

section \<open>The progress flag and the exit of the simulation loop\<close>

definition progress_ok :: "CPU \<Rightarrow> CPU \<Rightarrow> bool" where
  "progress_ok s t =
     (\<exists>evs. traceLog t = traceLog s @ evs \<and> (hasProgress t \<longleftrightarrow> hasProgress s \<or> evs \<noteq> []))"

lemma progress_ok_refl: "progress_ok s s"
  by (simp add: progress_ok_def)

lemma progress_ok_trans: "progress_ok a b \<Longrightarrow> progress_ok b c \<Longrightarrow> progress_ok a c"
  by (auto simp: progress_ok_def)

lemma progress_ok_steps:
  assumes "R\<^sup>*\<^sup>* s t" and "\<And>a b. R a b \<Longrightarrow> progress_ok a b"
  shows "progress_ok s t"
  using assms(1)
proof (rule steps_preserve [where P = "\<lambda>t. progress_ok s t"])
  show "progress_ok s s" by (rule progress_ok_refl)
next
  fix a b assume "progress_ok s a" "R a b"
  then show "progress_ok s b" using assms(2) progress_ok_trans by blast
qed

lemma progress_ok_retire: "progress_ok s (retire s)"
  by (rule progress_ok_steps [OF retire_steps])
    (auto simp: retire_step_def progress_ok_def retire_inst_proj)

lemma progress_ok_execute: "progress_ok s (execute s)"
  by (rule progress_ok_steps [OF execute_steps])
    (auto simp: execute_step_def progress_ok_def execute_inst_proj)

lemma progress_ok_issue: "progress_ok s (issue s)"
  by (rule progress_ok_steps [OF issue_steps])
    (auto simp: issue_step_def progress_ok_def issue_inst_proj)

lemma progress_ok_dispatch: "progress_ok s (dispatch s)"
  by (rule progress_ok_steps [OF dispatch_steps])
    (auto simp: dispatch_step_def progress_ok_def dispatch_inst_proj)

lemma progress_ok_decode: "progress_ok s (decode s)"
  by (rule progress_ok_steps [OF decode_steps])
    (auto simp: decode_step_def progress_ok_def decode_inst_proj)

lemma progress_ok_fetch: "progress_ok s (fetch s)"
  by (rule progress_ok_steps [OF fetch_steps])
    (auto simp: fetch_step_def progress_ok_def fetch_inst_proj)

lemma complete_step_trace:
  "complete_step a b \<Longrightarrow> \<exists>evs. traceLog b = traceLog a @ evs"
  by (auto simp: complete_step_def complete_inst_proj)

lemma complete_steps_trace:
  assumes "complete_step\<^sup>*\<^sup>* s t"
  shows "\<exists>evs. traceLog t = traceLog s @ evs"
  using assms
proof (rule steps_preserve [where P = "\<lambda>t. \<exists>evs. traceLog t = traceLog s @ evs"])
  show "\<exists>evs. traceLog s = traceLog s @ evs" by simp
next
  fix a b assume "\<exists>evs. traceLog a = traceLog s @ evs" "complete_step a b"
  then show "\<exists>evs. traceLog b = traceLog s @ evs"
    using complete_step_trace [of a b] by auto
qed

lemma complete_steps_progress:
  assumes "complete_step\<^sup>*\<^sup>* s t" and "hasProgress s"
  shows "hasProgress t"
  using assms
  by (rule steps_preserve) (auto simp: complete_step_def complete_inst_proj)

lemma complete_scan_progress:
  assumes "j < length (completeStage s)"
  shows "hasProgress (complete_scan j s)"
proof (cases "deadlineReached (cycle s) (instructionsList s ! (completeStage s ! j))")
  case True
  have "hasProgress (complete_scan (Suc j) (complete_inst j s))"
    by (rule complete_steps_progress [OF complete_scan_steps]) (simp add: complete_inst_proj)
  then show ?thesis using assms True by (subst complete_scan.simps) simp
next
  case False
  have "hasProgress (complete_scan (Suc j) (s\<lparr>hasProgress := True\<rparr>))"
    by (rule complete_steps_progress [OF complete_scan_steps]) simp
  then show ?thesis using assms False by (subst complete_scan.simps) simp
qed

lemma for_loop_complete_progress:
  "hasProgress s \<Longrightarrow> hasProgress (for_loop n complete_body s)"
  by (rule for_loop_induct [where P = hasProgress])
    (auto simp: complete_body_def complete_steps_progress [OF complete_scan_steps]
      split: if_splits)

lemma complete_progress:
  "hasProgress (complete s) \<longleftrightarrow> hasProgress s \<or> (completeStage s \<noteq> [] \<and> 0 < width s)"
proof (cases "width s")
  case 0
  then show ?thesis by (simp add: complete_def)
next
  case (Suc n)
  show ?thesis
  proof (cases "completeStage s = []")
    case True
    then show ?thesis by (simp add: complete_def Suc complete_body_def)
  next
    case False
    then have "hasProgress (complete_scan 0 s)"
      by (intro complete_scan_progress) simp
    then have "hasProgress (for_loop n complete_body (complete_scan 0 s))"
      by (rule for_loop_complete_progress)
    then show ?thesis using False by (simp add: complete_def Suc complete_body_def)
  qed
qed

lemma complete_noop: "completeStage s = [] \<or> width s = 0 \<Longrightarrow> complete s = s"
  by (cases "width s") (auto simp: complete_def complete_body_def)

lemma retire_frame:
  "completeStage (retire s) = completeStage s \<and> width (retire s) = width s"
  by (rule steps_preserve [OF retire_steps,
        where P = "\<lambda>t. completeStage t = completeStage s \<and> width t = width s"])
    (auto simp: retire_step_def retire_inst_proj)

lemma tick_progress:
  assumes "\<not> hasProgress s"
  shows "hasProgress (tick s) \<longleftrightarrow>
         traceLog (tick s) \<noteq> traceLog s \<or> (completeStage s \<noteq> [] \<and> 0 < width s)"
proof -
  let ?a = "admitFreed s"
  let ?r = "retire ?a"
  let ?c = "complete ?r"
  let ?f = "fetch (decode (dispatch (issue (execute ?c))))"
  have a: "traceLog ?a = traceLog s" "\<not> hasProgress ?a"
    "completeStage ?a = completeStage s" "width ?a = width s"
    using assms by (simp_all add: admitFreed_def)
  obtain e1 where e1: "traceLog ?r = traceLog s @ e1" "hasProgress ?r \<longleftrightarrow> e1 \<noteq> []"
    using progress_ok_retire [of ?a] a by (auto simp: progress_ok_def)
  have rf: "completeStage ?r = completeStage s" "width ?r = width s"
    using retire_frame [of ?a] a by simp_all
  obtain e2 where e2: "traceLog ?c = traceLog ?r @ e2"
    using complete_steps_trace [OF complete_steps, of ?r] by auto
  have c: "hasProgress ?c \<longleftrightarrow> e1 \<noteq> [] \<or> (completeStage s \<noteq> [] \<and> 0 < width s)"
    using complete_progress [of ?r] e1 rf by simp
  have n: "completeStage s \<noteq> [] \<and> 0 < width s" if "e2 \<noteq> []"
  proof (rule ccontr)
    assume "\<not> (completeStage s \<noteq> [] \<and> 0 < width s)"
    then have "completeStage ?r = [] \<or> width ?r = 0" using rf by auto
    then have "complete ?r = ?r" by (rule complete_noop)
    then show False using e2 that by simp
  qed
  have "progress_ok ?c (execute ?c)"
    by (rule progress_ok_execute)
  then have "progress_ok ?c (issue (execute ?c))"
    by (rule progress_ok_trans) (rule progress_ok_issue)
  then have "progress_ok ?c (dispatch (issue (execute ?c)))"
    by (rule progress_ok_trans) (rule progress_ok_dispatch)
  then have "progress_ok ?c (decode (dispatch (issue (execute ?c))))"
    by (rule progress_ok_trans) (rule progress_ok_decode)
  then have "progress_ok ?c ?f"
    by (rule progress_ok_trans) (rule progress_ok_fetch)
  then obtain e3 where e3: "traceLog ?f = traceLog ?c @ e3" "hasProgress ?f \<longleftrightarrow> hasProgress ?c \<or> e3 \<noteq> []"
    by (auto simp: progress_ok_def)
  have t: "tick s = ?f" by (simp add: tick_def)
  show ?thesis
    unfolding t using e1 e2 e3 c n by auto
qed

lemma cycle_step_progress:
  "hasProgress (cycle_step s) \<longleftrightarrow>
   traceLog (cycle_step s) \<noteq> traceLog s \<or> (completeStage s \<noteq> [] \<and> 0 < width s)"
  using tick_progress [of "s\<lparr>hasProgress := False\<rparr>"]
  by (simp add: cycle_step_def Let_def)

definition loopExit :: "CPU \<Rightarrow> bool" where
  "loopExit s = (isFinished s \<or> \<not> hasProgress s)"

lemma simulate_loop_exit: "loopExit s \<Longrightarrow> simulate_loop s = Some s"
  by (subst simulate_loop.simps) (auto simp: loopExit_def)

lemma simulate_loop_continue: "\<not> loopExit s \<Longrightarrow> simulate_loop s = simulate_loop (cycle_step s)"
  by (subst simulate_loop.simps) (auto simp: loopExit_def)

lemma simulate_loop_runs:
  assumes "loopExit (runCycles k s)" and "\<forall>j<k. \<not> loopExit (runCycles j s)"
  shows "simulate_loop s = Some (runCycles k s)"
  using assms
proof (induction k arbitrary: s)
  case 0
  then show ?case by (simp add: simulate_loop_exit)
next
  case (Suc k)
  have "\<not> loopExit s" using Suc.prems(2) by (auto dest: spec [of _ 0])
  moreover have "\<forall>j<k. \<not> loopExit (runCycles j (cycle_step s))"
    using Suc.prems(2) by (auto dest: spec [of _ "Suc j" for j])
  ultimately show ?case
    using Suc.IH [of "cycle_step s"] Suc.prems(1) by (simp add: simulate_loop_continue)
qed

lemma simulate_loop_result:
  assumes "simulate_loop s = Some s'"
  shows "\<exists>k. s' = runCycles k s \<and> loopExit s' \<and> (\<forall>j<k. \<not> loopExit (runCycles j s))"
proof (rule simulate_loop.raw_induct
    [where P = "\<lambda>a b. \<exists>k. b = runCycles k a \<and> loopExit b \<and> (\<forall>j<k. \<not> loopExit (runCycles j a))",
      OF _ assms])
  fix f a b
  assume IH: "\<And>x y. f x = Some y \<Longrightarrow>
                \<exists>k. y = runCycles k x \<and> loopExit y \<and> (\<forall>j<k. \<not> loopExit (runCycles j x))"
    and eq: "(if \<not> isFinished a \<and> hasProgress a then f (cycle_step a) else Some a) = Some b"
  show "\<exists>k. b = runCycles k a \<and> loopExit b \<and> (\<forall>j<k. \<not> loopExit (runCycles j a))"
  proof (cases "loopExit a")
    case True
    then have "b = a" using eq by (auto simp: loopExit_def split: if_splits)
    then have "b = runCycles 0 a \<and> loopExit b \<and> (\<forall>j<0. \<not> loopExit (runCycles j a))"
      using True by simp
    then show ?thesis by blast
  next
    case False
    then have "f (cycle_step a) = Some b" using eq by (auto simp: loopExit_def split: if_splits)
    from IH [OF this] obtain k where k: "b = runCycles k (cycle_step a)" "loopExit b"
      "\<forall>j<k. \<not> loopExit (runCycles j (cycle_step a))" by blast
    have "\<forall>j<Suc k. \<not> loopExit (runCycles j a)"
    proof (intro allI impI)
      fix j assume "j < Suc k"
      then show "\<not> loopExit (runCycles j a)"
        using False k(3) by (cases j) auto
    qed
    then have "b = runCycles (Suc k) a \<and> loopExit b \<and> (\<forall>j<Suc k. \<not> loopExit (runCycles j a))"
      using k by simp
    then show ?thesis by blast
  qed
qed

definition stamps :: "Instruction \<Rightarrow> nat option list" where
  "stamps x = map (\<lambda>st. stampOf st x) [Fetch, Decode, Dispatch, Issue, Execute, Complete, Retire]"

definition oneLoad :: CPU where
  "oneLoad = loadProgram [(RSType_LOAD, 0, - 1, 1)] (new_CPU RefuseWhenFull 4 8 8 1)"

text \<open>
  C8, as stated, fails: in cycle 5 of the one-load program the load waits in the complete
  queue for its deadline (cycle 6). No instruction advances (the trace and all timestamps
  are unchanged), yet the complete stage sets the progress flag, and the loop goes on.
\<close>

theorem progress_without_advance:
  "traceLog (cycle_step (runCycles 5 oneLoad)) = traceLog (runCycles 5 oneLoad)
   \<and> map stamps (instructionsList (cycle_step (runCycles 5 oneLoad)))
       = map stamps (instructionsList (runCycles 5 oneLoad))
   \<and> hasProgress (cycle_step (runCycles 5 oneLoad))
   \<and> \<not> isFinished (cycle_step (runCycles 5 oneLoad))"
  by code_simp

text \<open>
  C8, amended. The loop of \<^verbatim>\<open>simulate\<close> returns the state after \<open>k\<close> cycles exactly when
  \<open>k\<close> is the first number of cycles after which every instruction has retired or the
  progress flag is not set. The flag is set by a cycle if and only if the cycle wrote a
  trace line (an instruction advanced a stage) or the complete queue was not empty when the
  cycle began and the width is positive: an instruction that waits for its latency counts
  as progress.
\<close>

theorem simulate_exit_and_progress_flag:
  "(simulate_loop s = Some s' \<longleftrightarrow>
      (\<exists>k. s' = runCycles k s \<and> loopExit (runCycles k s) \<and> (\<forall>j<k. \<not> loopExit (runCycles j s))))
   \<and> (hasProgress (cycle_step s) \<longleftrightarrow>
        traceLog (cycle_step s) \<noteq> traceLog s \<or> (completeStage s \<noteq> [] \<and> 0 < width s))"
proof (intro conjI iffI)
  assume "simulate_loop s = Some s'"
  from simulate_loop_result [OF this]
  show "\<exists>k. s' = runCycles k s \<and> loopExit (runCycles k s) \<and> (\<forall>j<k. \<not> loopExit (runCycles j s))"
    by auto
next
  assume "\<exists>k. s' = runCycles k s \<and> loopExit (runCycles k s) \<and> (\<forall>j<k. \<not> loopExit (runCycles j s))"
  then show "simulate_loop s = Some s'"
    using simulate_loop_runs by blast
next
  assume "hasProgress (cycle_step s)"
  then show "traceLog (cycle_step s) \<noteq> traceLog s \<or> (completeStage s \<noteq> [] \<and> 0 < width s)"
    using cycle_step_progress by blast
next
  assume "traceLog (cycle_step s) \<noteq> traceLog s \<or> (completeStage s \<noteq> [] \<and> 0 < width s)"
  then show "hasProgress (cycle_step s)"
    using cycle_step_progress by blast
qed

theorem simulate_exit_and_progress_flag_witness:
  "simulate oneLoad = Some (runCycles 8 (oneLoad\<lparr>hasProgress := True\<rparr>))
   \<and> isFinished (runCycles 8 (oneLoad\<lparr>hasProgress := True\<rparr>))
   \<and> hasProgress (cycle_step (runCycles 5 oneLoad))
   \<and> completeStage (runCycles 5 oneLoad) = [0]"
proof -
  let ?s = "oneLoad\<lparr>hasProgress := True\<rparr>"
  have e: "loopExit (runCycles 8 ?s)" by code_simp
  have f: "isFinished (runCycles 8 ?s)" by code_simp
  have "list_all (\<lambda>j. \<not> loopExit (runCycles j ?s)) [0..<8]" by code_simp
  then have n: "\<forall>j<8. \<not> loopExit (runCycles j ?s)" by (simp add: list_all_iff)
  have c: "completeStage (runCycles 5 oneLoad) = [0]" by code_simp
  have w: "0 < width (runCycles 5 oneLoad)" by code_simp
  have 1: "simulate_loop ?s = Some (runCycles 8 ?s)"
    using simulate_exit_and_progress_flag [of ?s "runCycles 8 ?s"] e n by blast
  have 2: "hasProgress (cycle_step (runCycles 5 oneLoad))"
    using simulate_exit_and_progress_flag [of "runCycles 5 oneLoad" undefined] c w by simp
  show ?thesis using 1 2 f c by (simp add: simulate_def)
qed

section \<open>Program order: the pipeline holds instructions in ascending order\<close>

definition pipe_ids :: "CPU \<Rightarrow> nat list" where
  "pipe_ids s = map robInst (rob s) @ dispatchStage s @ decodeStage s @ [fetchPtr s]"

definition ord_inv :: "CPU \<Rightarrow> bool" where
  "ord_inv s =
     (fetchPtr s \<le> length (instructionsList s)
      \<and> sorted_wrt (<) (pipe_ids s)
      \<and> (\<forall>i c. i < length (instructionsList s) \<longrightarrow> retireCycle (instructionsList s ! i) = Some c \<longrightarrow>
             c \<le> cycle s \<and> (\<forall>x \<in> set (pipe_ids s). i < x))
      \<and> (\<forall>i j ci cj. i < j \<longrightarrow> j < length (instructionsList s) \<longrightarrow>
             retireCycle (instructionsList s ! i) = Some ci \<longrightarrow>
             retireCycle (instructionsList s ! j) = Some cj \<longrightarrow> ci \<le> cj))"

lemma ord_inv_same:
  assumes "ord_inv s"
    and "fetchPtr t = fetchPtr s" and "length (instructionsList t) = length (instructionsList s)"
    and "pipe_ids t = pipe_ids s" and "cycle t = cycle s"
    and "\<And>i. retireCycle (instructionsList t ! i) = retireCycle (instructionsList s ! i)"
  shows "ord_inv t"
  using assms(1) unfolding ord_inv_def assms(2-6) .

lemma ord_inv_retire_step:
  assumes "ord_inv s" and "retire_step s t"
  shows "ord_inv t"
proof -
  from assms(2) obtain e rest where r: "rob s = e # rest" and t: "t = retire_inst e s"
    by (auto simp: retire_step_def)
  let ?h = "robInst e"
  have p: "pipe_ids s = ?h # pipe_ids t"
    by (simp add: pipe_ids_def t retire_inst_proj r)
  have rc: "retireCycle (instructionsList t ! k) =
      (if k = ?h \<and> k < length (instructionsList s) then Some (cycle s)
       else retireCycle (instructionsList s ! k))" for k
    by (simp add: t retire_inst_nth)
  have len: "length (instructionsList t) = length (instructionsList s)"
    and fp: "fetchPtr t = fetchPtr s" and cy: "cycle t = cycle s"
    by (simp_all add: t retire_inst_proj)
  from assms(1) have s1: "fetchPtr s \<le> length (instructionsList s)"
    and s2: "sorted_wrt (<) (pipe_ids s)"
    and s3: "\<And>i c. i < length (instructionsList s) \<Longrightarrow> retireCycle (instructionsList s ! i) = Some c \<Longrightarrow>
             c \<le> cycle s \<and> (\<forall>x \<in> set (pipe_ids s). i < x)"
    and s4: "\<And>i j ci cj. i < j \<Longrightarrow> j < length (instructionsList s) \<Longrightarrow>
             retireCycle (instructionsList s ! i) = Some ci \<Longrightarrow>
             retireCycle (instructionsList s ! j) = Some cj \<Longrightarrow> ci \<le> cj"
    unfolding ord_inv_def by blast+
  have notret: "retireCycle (instructionsList s ! ?h) = None" if "?h < length (instructionsList s)"
  proof (rule ccontr)
    assume "retireCycle (instructionsList s ! ?h) \<noteq> None"
    then obtain c where "retireCycle (instructionsList s ! ?h) = Some c" by auto
    from s3 [OF that this] have "?h < ?h" by (simp add: p)
    then show False by simp
  qed
  have t1: "fetchPtr t \<le> length (instructionsList t)" using s1 fp len by simp
  have t2: "sorted_wrt (<) (pipe_ids t)" using s2 p by simp
  have t3: "c \<le> cycle t \<and> (\<forall>x \<in> set (pipe_ids t). i < x)"
    if "i < length (instructionsList t)" "retireCycle (instructionsList t ! i) = Some c" for i c
  proof (cases "i = ?h")
    case True
    then have "c = cycle s" using that rc [of i] len by simp
    moreover have "\<forall>x \<in> set (pipe_ids t). ?h < x" using s2 p by simp
    ultimately show ?thesis using True cy by simp
  next
    case False
    then have "retireCycle (instructionsList s ! i) = Some c" using that rc [of i] by simp
    from s3 [OF _ this] that len show ?thesis by (simp add: p cy)
  qed
  have t4: "ci \<le> cj"
    if "i < j" "j < length (instructionsList t)" "retireCycle (instructionsList t ! i) = Some ci"
      "retireCycle (instructionsList t ! j) = Some cj" for i j ci cj
  proof (cases "j = ?h")
    case True
    then have cj: "cj = cycle s" using that rc [of j] len by simp
    have "i \<noteq> ?h" using that True by simp
    then have "retireCycle (instructionsList s ! i) = Some ci" using that rc [of i] by simp
    from s3 [OF _ this] that len have "ci \<le> cycle s" by simp
    then show ?thesis using cj by simp
  next
    case False
    then have j: "retireCycle (instructionsList s ! j) = Some cj" using that rc [of j] by simp
    show ?thesis
    proof (cases "i = ?h")
      case True
      from s3 [OF _ j] that len have "j < ?h" by (simp add: p)
      then show ?thesis using that True by simp
    next
      case False
      then have "retireCycle (instructionsList s ! i) = Some ci" using that rc [of i] by simp
      from s4 [OF that(1) _ this j] that len show ?thesis by simp
    qed
  qed
  show ?thesis unfolding ord_inv_def using t1 t2 t3 t4 by blast
qed

lemma ord_inv_complete_step:
  assumes "ord_inv s" and "complete_step s t"
  shows "ord_inv t"
  using assms(2) unfolding complete_step_def
proof (elim disjE exE conjE)
  fix j assume "t = complete_inst j s"
  then show ?thesis
    by (intro ord_inv_same [OF assms(1)]) (simp_all add: pipe_ids_def complete_inst_proj complete_inst_nth)
next
  assume "t = s\<lparr>hasProgress := True\<rparr>"
  then show ?thesis
    by (intro ord_inv_same [OF assms(1)]) (simp_all add: pipe_ids_def)
qed

lemma ord_inv_execute_step:
  assumes "ord_inv s" and "execute_step s t"
  shows "ord_inv t"
proof -
  from assms(2) obtain i where "t = execute_inst i s" by (auto simp: execute_step_def)
  then show ?thesis
    by (intro ord_inv_same [OF assms(1)]) (simp_all add: pipe_ids_def execute_inst_proj execute_inst_nth)
qed

lemma ord_inv_issue_step:
  assumes "ord_inv s" and "issue_step s t"
  shows "ord_inv t"
proof -
  from assms(2) obtain i where "t = issue_inst i s" by (auto simp: issue_step_def)
  then show ?thesis
    by (intro ord_inv_same [OF assms(1)]) (simp_all add: pipe_ids_def issue_inst_proj issue_inst_nth)
qed

lemma ord_inv_dispatch_step:
  assumes "ord_inv s" and "dispatch_step s t"
  shows "ord_inv t"
proof -
  from assms(2) obtain i rest j where "dispatchStage s = i # rest" "t = dispatch_inst i j s"
    by (auto simp: dispatch_step_def)
  then show ?thesis
    by (intro ord_inv_same [OF assms(1)])
      (simp_all add: pipe_ids_def dispatch_inst_proj dispatch_inst_nth)
qed

lemma ord_inv_decode_step:
  assumes "ord_inv s" and "decode_step s t"
  shows "ord_inv t"
proof -
  from assms(2) obtain i rest where "decodeStage s = i # rest" "t = decode_inst i s"
    by (auto simp: decode_step_def)
  then show ?thesis
    by (intro ord_inv_same [OF assms(1)])
      (simp_all add: pipe_ids_def decode_inst_proj decode_inst_nth)
qed

lemma ord_inv_fetch_step:
  assumes "ord_inv s" and "fetch_step s t"
  shows "ord_inv t"
  using assms(2) unfolding fetch_step_def
proof (elim disjE conjE)
  assume "t = s\<lparr>isFetching := False\<rparr>"
  then show ?thesis
    by (intro ord_inv_same [OF assms(1)]) (simp_all add: pipe_ids_def)
next
  assume lt: "fetchPtr s < length (instructionsList s)" and t: "t = fetch_inst s"
  have p: "pipe_ids t = pipe_ids s @ [fetchPtr s + 1]"
    by (simp add: pipe_ids_def t fetch_inst_proj)
  have l: "last (pipe_ids s) = fetchPtr s" "fetchPtr s \<in> set (pipe_ids s)"
    by (simp_all add: pipe_ids_def)
  have cy: "cycle t = cycle s"
    by (simp add: t fetch_inst_proj)
  from assms(1) have s2: "sorted_wrt (<) (pipe_ids s)"
    and s3: "\<And>i c. i < length (instructionsList s) \<Longrightarrow> retireCycle (instructionsList s ! i) = Some c \<Longrightarrow>
             c \<le> cycle s \<and> (\<forall>x \<in> set (pipe_ids s). i < x)"
    and s4: "\<And>i j ci cj. i < j \<Longrightarrow> j < length (instructionsList s) \<Longrightarrow>
             retireCycle (instructionsList s ! i) = Some ci \<Longrightarrow>
             retireCycle (instructionsList s ! j) = Some cj \<Longrightarrow> ci \<le> cj"
    unfolding ord_inv_def by blast+
  have le: "\<forall>x \<in> set (pipe_ids s). x \<le> fetchPtr s"
    using s2 by (auto simp: pipe_ids_def sorted_wrt_append)
  have t2: "sorted_wrt (<) (pipe_ids t)"
    using s2 le by (auto simp: p sorted_wrt_append)
  have t3: "c \<le> cycle t \<and> (\<forall>x \<in> set (pipe_ids t). i < x)"
    if "i < length (instructionsList t)" "retireCycle (instructionsList t ! i) = Some c" for i c
  proof -
    have "retireCycle (instructionsList s ! i) = Some c" "i < length (instructionsList s)"
      using that by (simp_all add: t fetch_inst_nth fetch_inst_proj)
    from s3 [OF this(2,1)] l cy show ?thesis by (auto simp: p)
  qed
  have t4: "ci \<le> cj"
    if "i < j" "j < length (instructionsList t)" "retireCycle (instructionsList t ! i) = Some ci"
      "retireCycle (instructionsList t ! j) = Some cj" for i j ci cj
    using s4 [of i j ci cj] that by (simp add: t fetch_inst_nth fetch_inst_proj)
  have t1: "fetchPtr t \<le> length (instructionsList t)"
    using lt by (simp add: t fetch_inst_proj)
  show ?thesis unfolding ord_inv_def using t1 t2 t3 t4 by blast
qed

lemma ord_inv_tick: "ord_inv s \<Longrightarrow> ord_inv (tick s)"
proof -
  assume s: "ord_inv s"
  have a: "ord_inv (admitFreed s)"
    by (rule ord_inv_same [OF s]) (simp_all add: admitFreed_def pipe_ids_def)
  have r: "ord_inv (retire (admitFreed s))"
    by (rule steps_preserve [where P = ord_inv, OF retire_steps a]) (rule ord_inv_retire_step)
  have c: "ord_inv (complete (retire (admitFreed s)))"
    by (rule steps_preserve [where P = ord_inv, OF complete_steps r]) (rule ord_inv_complete_step)
  have e: "ord_inv (execute (complete (retire (admitFreed s))))"
    by (rule steps_preserve [where P = ord_inv, OF execute_steps c]) (rule ord_inv_execute_step)
  have i: "ord_inv (issue (execute (complete (retire (admitFreed s)))))"
    by (rule steps_preserve [where P = ord_inv, OF issue_steps e]) (rule ord_inv_issue_step)
  have d: "ord_inv (dispatch (issue (execute (complete (retire (admitFreed s))))))"
    by (rule steps_preserve [where P = ord_inv, OF dispatch_steps i]) (rule ord_inv_dispatch_step)
  have de: "ord_inv (decode (dispatch (issue (execute (complete (retire (admitFreed s)))))))"
    by (rule steps_preserve [where P = ord_inv, OF decode_steps d]) (rule ord_inv_decode_step)
  have "ord_inv (fetch (decode (dispatch (issue (execute (complete (retire (admitFreed s))))))))"
    by (rule steps_preserve [where P = ord_inv, OF fetch_steps de]) (rule ord_inv_fetch_step)
  then show ?thesis by (simp add: tick_def)
qed

lemma ord_inv_cycle_step: "ord_inv s \<Longrightarrow> ord_inv (cycle_step s)"
proof -
  assume s: "ord_inv s"
  have "ord_inv (s\<lparr>hasProgress := False\<rparr>)"
    by (rule ord_inv_same [OF s]) (simp_all add: pipe_ids_def)
  then have t: "ord_inv (tick (s\<lparr>hasProgress := False\<rparr>))"
    by (rule ord_inv_tick)
  show ?thesis
    using t unfolding ord_inv_def cycle_step_def Let_def pipe_ids_def
    by (simp add: le_Suc_eq)
qed

lemma ord_inv_run: "ord_inv s \<Longrightarrow> ord_inv (runCycles n s)"
  by (induction n arbitrary: s) (simp_all add: ord_inv_cycle_step)

lemma ord_inv_initial: "ord_inv (initial pol prog nA nP nR w)"
  using initial_fresh [of pol prog nA nP nR w]
  by (simp add: ord_inv_def pipe_ids_def initial_proj)

lemma retire_stop:
  assumes "rob t = [] \<or> \<not> hasCompleted (instructionsList t ! robInst (hd (rob t)))"
  shows "for_loop m retire_body t = t"
proof -
  have "retire_body t = Break t"
    using assms by (cases "rob t") (auto simp: retire_body_def)
  then show ?thesis by (cases m) simp_all
qed

lemma retire_prefix:
  "\<exists>k\<le>m. rob (for_loop m retire_body t) = drop k (rob t)
     \<and> traceLog (for_loop m retire_body t)
         = traceLog t @ map (\<lambda>e. (cycle t, Retire, robInst e)) (take k (rob t))
     \<and> (k < m \<longrightarrow> rob (for_loop m retire_body t) = []
           \<or> \<not> hasCompleted (instructionsList (for_loop m retire_body t)
                  ! robInst (hd (rob (for_loop m retire_body t)))))"
proof (induction m arbitrary: t)
  case 0
  then show ?case by simp
next
  case (Suc m)
  show ?case
  proof (cases "rob t = [] \<or> \<not> hasCompleted (instructionsList t ! robInst (hd (rob t)))")
    case True
    then have "for_loop (Suc m) retire_body t = t" by (rule retire_stop)
    then show ?thesis using True by (intro exI [of _ 0]) simp
  next
    case False
    then obtain e rest where r: "rob t = e # rest"
      and c: "hasCompleted (instructionsList t ! robInst e)"
      by (cases "rob t") auto
    let ?t = "retire_inst e t"
    have b: "for_loop (Suc m) retire_body t = for_loop m retire_body ?t"
      using r c by (simp add: retire_body_def)
    from Suc.IH [of ?t] obtain k where k: "k \<le> m"
      "rob (for_loop m retire_body ?t) = drop k (rob ?t)"
      "traceLog (for_loop m retire_body ?t)
         = traceLog ?t @ map (\<lambda>e. (cycle ?t, Retire, robInst e)) (take k (rob ?t))"
      "k < m \<longrightarrow> rob (for_loop m retire_body ?t) = []
           \<or> \<not> hasCompleted (instructionsList (for_loop m retire_body ?t)
                  ! robInst (hd (rob (for_loop m retire_body ?t))))"
      by blast
    show ?thesis
      using k unfolding b
      by (intro exI [of _ "Suc k"]) (simp add: retire_inst_proj r)
  qed
qed

definition threeOps :: CPU where
  "threeOps =
     loadProgram [(RSType_LOAD, 0, - 1, 1), (RSType_ALU, 1, 0, 2), (RSType_ALU, 0, 0, 3)]
       (new_CPU RefuseWhenFull 4 8 8 1)"

text \<open>
  C1. In a run from the initial state, an earlier instruction never retires in a later
  cycle than a later one. The retire loop stops as soon as the ROB is empty or its head has
  not completed, whatever the state of the entries behind the head; what it removes from the
  ROB in one cycle is a prefix of at most \<open>width\<close> entries, retired in ROB order.
\<close>

theorem retire_program_order:
  "(\<forall>i j ci cj. i < j \<longrightarrow> j < length (instructionsList (runCycles n (initial pol prog nA nP nR w))) \<longrightarrow>
      retireCycle (instructionsList (runCycles n (initial pol prog nA nP nR w)) ! i) = Some ci \<longrightarrow>
      retireCycle (instructionsList (runCycles n (initial pol prog nA nP nR w)) ! j) = Some cj \<longrightarrow>
      ci \<le> cj)
   \<and> (\<forall>t m. rob t = [] \<or> \<not> hasCompleted (instructionsList t ! robInst (hd (rob t))) \<longrightarrow>
        for_loop m retire_body t = t)
   \<and> (\<forall>t. \<exists>k\<le>width t. rob (retire t) = drop k (rob t)
        \<and> traceLog (retire t) = traceLog t @ map (\<lambda>e. (cycle t, Retire, robInst e)) (take k (rob t))
        \<and> (k < width t \<longrightarrow> rob (retire t) = []
              \<or> \<not> hasCompleted (instructionsList (retire t) ! robInst (hd (rob (retire t))))))"
proof (intro conjI allI impI)
  fix i j ci cj
  let ?s = "runCycles n (initial pol prog nA nP nR w)"
  assume a: "i < j" "j < length (instructionsList ?s)"
    "retireCycle (instructionsList ?s ! i) = Some ci"
    "retireCycle (instructionsList ?s ! j) = Some cj"
  have "ord_inv ?s" by (intro ord_inv_run ord_inv_initial)
  then show "ci \<le> cj" using a unfolding ord_inv_def by blast
next
  fix t :: CPU and m
  assume "rob t = [] \<or> \<not> hasCompleted (instructionsList t ! robInst (hd (rob t)))"
  then show "for_loop m retire_body t = t" by (rule retire_stop)
next
  fix t :: CPU
  show "\<exists>k\<le>width t. rob (retire t) = drop k (rob t)
        \<and> traceLog (retire t) = traceLog t @ map (\<lambda>e. (cycle t, Retire, robInst e)) (take k (rob t))
        \<and> (k < width t \<longrightarrow> rob (retire t) = []
              \<or> \<not> hasCompleted (instructionsList (retire t) ! robInst (hd (rob (retire t)))))"
    unfolding retire_def by (rule retire_prefix)
qed

theorem retire_program_order_witness:
  "retireCycle (instructionsList (runCycles 11 (initial RefuseWhenFull
      [(RSType_LOAD, 0, - 1, 1), (RSType_ALU, 1, 0, 2), (RSType_ALU, 0, 0, 3)] 4 8 8 1)) ! 1) = Some 9
   \<and> retireCycle (instructionsList (runCycles 11 (initial RefuseWhenFull
      [(RSType_LOAD, 0, - 1, 1), (RSType_ALU, 1, 0, 2), (RSType_ALU, 0, 0, 3)] 4 8 8 1)) ! 2) = Some 10
   \<and> (9 :: nat) \<le> 10
   \<and> map robInst (rob (runCycles 8 threeOps)) = [1, 2]
   \<and> hasCompleted (instructionsList (runCycles 8 threeOps) ! 2)
   \<and> \<not> hasCompleted (instructionsList (runCycles 8 threeOps) ! 1)
   \<and> retire (runCycles 8 threeOps) = runCycles 8 threeOps"
proof -
  let ?p = "[(RSType_LOAD, 0, - 1, 1), (RSType_ALU, 1, 0, 2), (RSType_ALU, 0, 0, 3)]"
  let ?s = "runCycles 11 (initial RefuseWhenFull ?p 4 8 8 1)"
  have l: "2 < length (instructionsList ?s)" by code_simp
  have r1: "retireCycle (instructionsList ?s ! 1) = Some 9" by code_simp
  have r2: "retireCycle (instructionsList ?s ! 2) = Some 10" by code_simp
  have le: "(9 :: nat) \<le> 10"
    using retire_program_order [of 11 RefuseWhenFull ?p 4 8 8 1] l r1 r2 by (meson one_less_numeral_iff semiring_norm(76))
  have q: "map robInst (rob (runCycles 8 threeOps)) = [1, 2]" by code_simp
  have c2: "hasCompleted (instructionsList (runCycles 8 threeOps) ! 2)" by code_simp
  have c1: "\<not> hasCompleted (instructionsList (runCycles 8 threeOps) ! robInst (hd (rob (runCycles 8 threeOps))))"
    by code_simp
  have c1': "\<not> hasCompleted (instructionsList (runCycles 8 threeOps) ! 1)" by code_simp
  have "for_loop (width (runCycles 8 threeOps)) retire_body (runCycles 8 threeOps) = runCycles 8 threeOps"
    using retire_program_order [of 11 RefuseWhenFull ?p 4 8 8 1] c1 by blast
  then have st: "retire (runCycles 8 threeOps) = runCycles 8 threeOps"
    by (simp add: retire_def)
  show ?thesis using r1 r2 le q c2 c1' st by simp
qed

section \<open>Physical registers: free list, map table and pending releases\<close>

definition hasDst :: "CPU \<Rightarrow> ROBEntry \<Rightarrow> bool" where
  "hasDst s e = (dstOp (instructionsList s ! robInst e) \<noteq> - 1)"

definition robTolds :: "CPU \<Rightarrow> u32 list" where
  "robTolds s = map (\<lambda>e. regNum (robTold e)) (filter (hasDst s) (rob s))"

definition regsOf :: "CPU \<Rightarrow> u32 list" where
  "regsOf s =
     map regNum (freeList s) @ mapping (mapTable s) @ robTolds s
       @ map regNum (freePhysRegsPrevCycle s)"

definition allRegs :: "nat \<Rightarrow> u32 list" where
  "allRegs nP = map of_nat [0..<nP]"

definition wf_program :: "nat \<Rightarrow> (RSType \<times> u32 \<times> u32 \<times> u32) list \<Rightarrow> bool" where
  "wf_program nA prog = list_all (\<lambda>(k, s1, s2, d). d = - 1 \<or> unat d < nA) prog"

definition regs_inv :: "nat \<Rightarrow> nat \<Rightarrow> CPU \<Rightarrow> bool" where
  "regs_inv nA nP s =
     (mset (regsOf s) = mset (allRegs nP)
      \<and> length (mapping (mapTable s)) = nA
      \<and> (\<forall>i < length (instructionsList s).
            dstOp (instructionsList s ! i) = - 1 \<or> unat (dstOp (instructionsList s ! i)) < nA)
      \<and> (\<forall>i \<in> set (dispatchStage s) \<union> set (decodeStage s). i < length (instructionsList s)))"

lemma hasDst_cong:
  "(\<And>i. dstOp (instructionsList t ! i) = dstOp (instructionsList s ! i)) \<Longrightarrow> hasDst t = hasDst s"
  by (auto simp: hasDst_def fun_eq_iff)

lemma regs_inv_same:
  assumes "regs_inv nA nP s"
    and "freeList t = freeList s" and "mapping (mapTable t) = mapping (mapTable s)"
    and "rob t = rob s" and "freePhysRegsPrevCycle t = freePhysRegsPrevCycle s"
    and "dispatchStage t = dispatchStage s" and "decodeStage t = decodeStage s"
    and "length (instructionsList t) = length (instructionsList s)"
    and "\<And>i. dstOp (instructionsList t ! i) = dstOp (instructionsList s ! i)"
  shows "regs_inv nA nP t"
proof -
  have "hasDst t = hasDst s" using assms(9) by (rule hasDst_cong)
  then have "regsOf t = regsOf s"
    by (simp add: regsOf_def robTolds_def assms(2-5))
  then show ?thesis
    using assms(1) unfolding regs_inv_def by (simp add: assms(3,6-9))
qed

lemma regs_inv_retire_step:
  assumes "regs_inv nA nP s" and "retire_step s t"
  shows "regs_inv nA nP t"
proof -
  from assms(2) obtain e rest where r: "rob s = e # rest" and t: "t = retire_inst e s"
    by (auto simp: retire_step_def)
  have h: "hasDst (retire_inst e s) = hasDst s"
    by (rule hasDst_cong) (simp add: retire_inst_nth)
  have "mset (regsOf t) = mset (regsOf s)"
    unfolding t by (simp add: regsOf_def robTolds_def h retire_inst_proj r) (simp add: hasDst_def)
  then show ?thesis
    using assms(1) unfolding regs_inv_def
    by (simp add: t retire_inst_proj retire_inst_nth)
qed

lemma regs_inv_complete_step:
  assumes "regs_inv nA nP s" and "complete_step s t"
  shows "regs_inv nA nP t"
  using assms(2) unfolding complete_step_def
proof (elim disjE exE conjE)
  fix j assume "t = complete_inst j s"
  then show ?thesis
    by (intro regs_inv_same [OF assms(1)])
      (simp_all add: complete_inst_proj complete_inst_nth setReadyBit_def)
next
  assume "t = s\<lparr>hasProgress := True\<rparr>"
  then show ?thesis
    by (intro regs_inv_same [OF assms(1)]) simp_all
qed

lemma regs_inv_execute_step:
  assumes "regs_inv nA nP s" and "execute_step s t"
  shows "regs_inv nA nP t"
proof -
  from assms(2) obtain i where "t = execute_inst i s" by (auto simp: execute_step_def)
  then show ?thesis
    by (intro regs_inv_same [OF assms(1)]) (simp_all add: execute_inst_proj execute_inst_nth)
qed

lemma regs_inv_issue_step:
  assumes "regs_inv nA nP s" and "issue_step s t"
  shows "regs_inv nA nP t"
proof -
  from assms(2) obtain i where "t = issue_inst i s" by (auto simp: issue_step_def)
  then show ?thesis
    by (intro regs_inv_same [OF assms(1)]) (simp_all add: issue_inst_proj issue_inst_nth)
qed

lemma regs_inv_decode_step:
  assumes "regs_inv nA nP s" and "decode_step s t"
  shows "regs_inv nA nP t"
proof -
  from assms(2) obtain i rest where d: "decodeStage s = i # rest" and t: "t = decode_inst i s"
    by (auto simp: decode_step_def)
  have h: "hasDst (decode_inst i s) = hasDst s"
    by (rule hasDst_cong) (simp add: decode_inst_nth)
  have "regsOf t = regsOf s"
    unfolding t by (simp add: regsOf_def robTolds_def h decode_inst_proj)
  then show ?thesis
    using assms(1) d unfolding regs_inv_def
    by (auto simp: t decode_inst_proj decode_inst_nth)
qed

lemma regs_inv_fetch_step:
  assumes "regs_inv nA nP s" and "fetch_step s t"
  shows "regs_inv nA nP t"
  using assms(2) unfolding fetch_step_def
proof (elim disjE conjE)
  assume "t = s\<lparr>isFetching := False\<rparr>"
  then show ?thesis
    by (intro regs_inv_same [OF assms(1)]) simp_all
next
  assume lt: "fetchPtr s < length (instructionsList s)" and t: "t = fetch_inst s"
  have h: "hasDst (fetch_inst s) = hasDst s"
    by (rule hasDst_cong) (simp add: fetch_inst_nth)
  have "regsOf t = regsOf s"
    unfolding t by (simp add: regsOf_def robTolds_def h fetch_inst_proj)
  then show ?thesis
    using assms(1) lt unfolding regs_inv_def
    by (auto simp: t fetch_inst_proj fetch_inst_nth)
qed

lemma regs_inv_dispatch_step:
  assumes "regs_inv nA nP s" and "dispatch_step s t"
  shows "regs_inv nA nP t"
proof -
  from assms(2) obtain i rest j where q: "dispatchStage s = i # rest"
    and reg: "dstOp (instructionsList s ! i) \<noteq> - 1 \<longrightarrow> hasRegister s"
    and t: "t = dispatch_inst i j s"
    by (auto simp: dispatch_step_def)
  from assms(1) have m: "mset (regsOf s) = mset (allRegs nP)"
    and len: "length (mapping (mapTable s)) = nA"
    and wf: "\<And>k. k < length (instructionsList s) \<Longrightarrow>
            dstOp (instructionsList s ! k) = - 1 \<or> unat (dstOp (instructionsList s ! k)) < nA"
    and ids: "\<And>k. k \<in> set (dispatchStage s) \<union> set (decodeStage s) \<Longrightarrow> k < length (instructionsList s)"
    unfolding regs_inv_def by blast+
  have i: "i < length (instructionsList s)" using ids [of i] q by simp
  have h: "hasDst (dispatch_inst i j s) = hasDst s"
    by (rule hasDst_cong) (simp add: dispatch_inst_nth)
  let ?d = "dstOp (instructionsList s ! i)"
  have "mset (regsOf t) = mset (regsOf s)"
  proof (cases "?d = - 1")
    case True
    then have "\<not> hasDst s \<lparr>robInst = i, robT = dispT i s, robTold = dispTold i s\<rparr>"
      by (simp add: hasDst_def)
    then show ?thesis
      unfolding t using True by (simp add: regsOf_def robTolds_def h dispatch_inst_proj)
  next
    case False
    then have d: "unat ?d < length (mapping (mapTable s))" using wf [OF i] len by simp
    from False reg obtain f fs where f: "freeList s = f # fs"
      by (cases "freeList s") (auto simp: hasRegister_def)
    have told: "regNum (dispTold i s) = mapping (mapTable s) ! unat ?d"
      using False d by (simp add: dispTold_def getMapping_def Let_def)
    have tn: "regNum (dispT i s) = regNum f"
      using False f by (simp add: dispT_def)
    have mem: "mapping (mapTable s) ! unat ?d \<in># mset (mapping (mapTable s))"
      using d by simp
    have hd: "hasDst s \<lparr>robInst = i, robT = dispT i s, robTold = dispTold i s\<rparr>"
      using False by (simp add: hasDst_def)
    show ?thesis
      unfolding t using False d mem hd
      by (simp add: regsOf_def robTolds_def h dispatch_inst_proj f told tn
          setMapping_def mset_update)
  qed
  then show ?thesis
    using m len wf ids q unfolding regs_inv_def
    by (auto simp: t dispatch_inst_proj dispatch_inst_nth setMapping_def)
qed

lemma regs_inv_admit: "regs_inv nA nP s \<Longrightarrow> regs_inv nA nP (admitFreed s)"
  unfolding regs_inv_def regsOf_def robTolds_def hasDst_def admitFreed_def
  by (simp add: ac_simps)

lemma regs_inv_cycle: "regs_inv nA nP s \<Longrightarrow> regs_inv nA nP (s\<lparr>cycle := c\<rparr>)"
  unfolding regs_inv_def regsOf_def robTolds_def hasDst_def by simp

lemma regs_inv_flag: "regs_inv nA nP s \<Longrightarrow> regs_inv nA nP (s\<lparr>hasProgress := b\<rparr>)"
  unfolding regs_inv_def regsOf_def robTolds_def hasDst_def by simp

lemma regs_inv_tickPrefix: "regs_inv nA nP s \<Longrightarrow> regs_inv nA nP (tickPrefix k s)"
proof (induction k)
  case 0
  then show ?case by (simp add: regs_inv_admit)
next
  case (Suc k)
  then have p: "regs_inv nA nP (tickPrefix k s)" by simp
  have "regs_inv nA nP (retire (tickPrefix k s))"
    by (rule steps_preserve [where P = "regs_inv nA nP", OF retire_steps p]) (rule regs_inv_retire_step)
  moreover have "regs_inv nA nP (complete (tickPrefix k s))"
    by (rule steps_preserve [where P = "regs_inv nA nP", OF complete_steps p]) (rule regs_inv_complete_step)
  moreover have "regs_inv nA nP (execute (tickPrefix k s))"
    by (rule steps_preserve [where P = "regs_inv nA nP", OF execute_steps p]) (rule regs_inv_execute_step)
  moreover have "regs_inv nA nP (issue (tickPrefix k s))"
    by (rule steps_preserve [where P = "regs_inv nA nP", OF issue_steps p]) (rule regs_inv_issue_step)
  moreover have "regs_inv nA nP (dispatch (tickPrefix k s))"
    by (rule steps_preserve [where P = "regs_inv nA nP", OF dispatch_steps p]) (rule regs_inv_dispatch_step)
  moreover have "regs_inv nA nP (decode (tickPrefix k s))"
    by (rule steps_preserve [where P = "regs_inv nA nP", OF decode_steps p]) (rule regs_inv_decode_step)
  moreover have "regs_inv nA nP (fetch (tickPrefix k s))"
    by (rule steps_preserve [where P = "regs_inv nA nP", OF fetch_steps p]) (rule regs_inv_fetch_step)
  ultimately show ?case using p by auto
qed

lemma regs_inv_cycle_step: "regs_inv nA nP s \<Longrightarrow> regs_inv nA nP (cycle_step s)"
  unfolding cycle_step_def Let_def tick_tickPrefix
  by (intro regs_inv_cycle regs_inv_tickPrefix regs_inv_flag)

lemma regs_inv_run: "regs_inv nA nP s \<Longrightarrow> regs_inv nA nP (runCycles n s)"
  by (induction n arbitrary: s) (simp_all add: regs_inv_cycle_step)

lemma initial_dst:
  assumes "wf_program nA prog"
  shows "\<forall>x \<in> set (instructionsList (initial pol prog nA nP nR w)). dstOp x = - 1 \<or> unat (dstOp x) < nA"
  unfolding initial_def
proof (rule loadProgram_all)
  show "\<forall>x\<in>set (instructionsList (new_CPU pol nA nP nR w)). dstOp x = - 1 \<or> unat (dstOp x) < nA"
    by (simp add: new_CPU_proj)
next
  fix n k s1 s2 d assume "(k, s1, s2, d) \<in> set prog"
  then show "dstOp (new_Instruction n k s1 s2 d) = - 1 \<or> unat (dstOp (new_Instruction n k s1 s2 d)) < nA"
    using assms by (auto simp: wf_program_def list_all_iff new_Instruction_def)
qed

lemma regs_inv_initial:
  assumes "wf_program nA prog" and "nA \<le> nP"
  shows "regs_inv nA nP (initial pol prog nA nP nR w)"
proof -
  have "[0..<nP] = [0..<nA] @ [nA..<nP]"
    using assms(2) by (metis le_add_diff_inverse upt_add_eq_append zero_le)
  then have "mset (regsOf (initial pol prog nA nP nR w)) = mset (allRegs nP)"
    by (simp add: regsOf_def robTolds_def initial_proj new_FreeList_def new_MapTable_def
        allRegs_def comp_def)
  then show ?thesis
    using initial_dst [OF assms(1), of pol nP nR w]
    by (auto simp: regs_inv_def initial_proj new_MapTable_def)
qed

lemma unat_of_nat_u32: "a < 2 ^ 32 \<Longrightarrow> unat (of_nat a :: u32) = a"
  by (simp add: unat_of_nat)

lemma allRegs_distinct:
  assumes "nP \<le> 2 ^ 32"
  shows "distinct (allRegs nP)"
proof -
  have "inj_on (of_nat :: nat \<Rightarrow> u32) (set [0..<nP])"
  proof (rule inj_onI)
    fix a b assume a: "a \<in> set [0..<nP]" and b: "b \<in> set [0..<nP]"
      and e: "(of_nat a :: u32) = of_nat b"
    have "a < 2 ^ 32" "b < 2 ^ 32" using assms a b by auto
    then have "unat (of_nat a :: u32) = a" "unat (of_nat b :: u32) = b"
      by (simp_all only: unat_of_nat_u32)
    then show "a = b" using e by (metis)
  qed
  then show ?thesis
    unfolding allRegs_def by (simp add: distinct_map)
qed

lemma allRegs_set:
  assumes "nP \<le> 2 ^ 32"
  shows "set (allRegs nP) = {p. unat p < nP}"
proof (intro set_eqI iffI)
  fix p :: u32 assume "p \<in> set (allRegs nP)"
  then obtain a where a: "a < nP" "p = of_nat a" by (auto simp: allRegs_def)
  then have "a < 2 ^ 32" using assms by auto
  then have "unat p = a" using a by (simp only: unat_of_nat_u32)
  then show "p \<in> {p. unat p < nP}" using a by simp
next
  fix p :: u32 assume "p \<in> {p. unat p < nP}"
  then have "unat p \<in> set [0..<nP]" by simp
  then have "of_nat (unat p) \<in> (of_nat :: nat \<Rightarrow> u32) ` set [0..<nP]" by (rule imageI)
  then show "p \<in> set (allRegs nP)" by (simp add: allRegs_def)
qed

lemma regs_inv_partition:
  assumes "regs_inv nA nP s" and "nP \<le> 2 ^ 32"
  shows "distinct (regsOf s)" and "set (regsOf s) = {p. unat p < nP}" and "length (regsOf s) = nP"
proof -
  from assms(1) have m: "mset (regsOf s) = mset (allRegs nP)" by (simp add: regs_inv_def)
  show "distinct (regsOf s)"
    using mset_eq_imp_distinct_iff [OF m] allRegs_distinct [OF assms(2)] by simp
  show "set (regsOf s) = {p. unat p < nP}"
    using mset_eq_setD [OF m] allRegs_set [OF assms(2)] by simp
  show "length (regsOf s) = nP"
    using mset_eq_length [OF m] by (simp add: allRegs_def)
qed

section \<open>Register conservation\<close>

text \<open>
  The initial physical register of an architectural register is placed in the free list
  once an instruction that renames the architectural register has retired. With width 1 and
  the program LOAD r1, ALU r2, architectural register 1 is mapped to physical register 1
  at the start; the load is renamed to physical register 4 and retires in cycle 7, its
  old mapping 1 is admitted to the free list at the start of cycle 8.
\<close>

theorem initial_register_is_freed:
  "mapping (mapTable (initial RefuseWhenFull
       [(RSType_LOAD, 0, - 1, 1), (RSType_ALU, 0, 0, 2)] 4 8 8 1)) = [0, 1, 2, 3]
   \<and> map regNum (freeList (initial RefuseWhenFull
       [(RSType_LOAD, 0, - 1, 1), (RSType_ALU, 0, 0, 2)] 4 8 8 1)) = [4, 5, 6, 7]
   \<and> map regNum (freePhysRegsPrevCycle (runCycles 8 (initial RefuseWhenFull
       [(RSType_LOAD, 0, - 1, 1), (RSType_ALU, 0, 0, 2)] 4 8 8 1))) = [1]
   \<and> map regNum (freeList (runCycles 9 (initial RefuseWhenFull
       [(RSType_LOAD, 0, - 1, 1), (RSType_ALU, 0, 0, 2)] 4 8 8 1))) = [6, 7, 1]
   \<and> map regNum (freeList (runCycles 10 (initial RefuseWhenFull
       [(RSType_LOAD, 0, - 1, 1), (RSType_ALU, 0, 0, 2)] 4 8 8 1))) = [6, 7, 1, 2]"
  by code_simp

text \<open>
  C4. For a program whose destination registers are architectural registers, on a machine
  with at least as many physical as architectural registers, the numbers of the registers
  in the free list, of the current map-table targets, of the old mappings held by ROB
  entries with a destination and of the registers pending release are pairwise distinct
  and are exactly the physical register numbers; so the four counts sum to the number of
  physical registers. This holds at every cycle boundary and between any two stages of a
  cycle. At the start the map table holds the first \<open>nA\<close> register numbers and the free
  list the others; later an initial physical register does reach the free list, as every
  old mapping does when the instruction that replaced it retires.
\<close>

theorem register_conservation:
  assumes "wf_program nA prog" and "nA \<le> nP" and "nP \<le> 2 ^ 32"
  shows "mapping (mapTable (initial pol prog nA nP nR w)) = map of_nat [0..<nA]
    \<and> map regNum (freeList (initial pol prog nA nP nR w)) = map of_nat [nA..<nP]
    \<and> distinct (regsOf (runCycles n (initial pol prog nA nP nR w)))
    \<and> set (regsOf (runCycles n (initial pol prog nA nP nR w))) = {p. unat p < nP}
    \<and> length (freeList (runCycles n (initial pol prog nA nP nR w)))
        + length (mapping (mapTable (runCycles n (initial pol prog nA nP nR w))))
        + length (robTolds (runCycles n (initial pol prog nA nP nR w)))
        + length (freePhysRegsPrevCycle (runCycles n (initial pol prog nA nP nR w))) = nP
    \<and> (\<forall>k. distinct (regsOf
               (tickPrefix k ((runCycles n (initial pol prog nA nP nR w))\<lparr>hasProgress := False\<rparr>)))
           \<and> set (regsOf
               (tickPrefix k ((runCycles n (initial pol prog nA nP nR w))\<lparr>hasProgress := False\<rparr>)))
             = {p. unat p < nP}
           \<and> length (regsOf
               (tickPrefix k ((runCycles n (initial pol prog nA nP nR w))\<lparr>hasProgress := False\<rparr>)))
             = nP)"
proof -
  let ?s = "runCycles n (initial pol prog nA nP nR w)"
  have inv: "regs_inv nA nP ?s"
    by (intro regs_inv_run regs_inv_initial assms)
  have pre: "regs_inv nA nP (tickPrefix k (?s\<lparr>hasProgress := False\<rparr>))" for k
    by (intro regs_inv_tickPrefix regs_inv_flag inv)
  have "length (regsOf ?s) = nP"
    using regs_inv_partition(3) [OF inv assms(3)] .
  then have "length (freeList ?s) + length (mapping (mapTable ?s)) + length (robTolds ?s)
        + length (freePhysRegsPrevCycle ?s) = nP"
    by (simp add: regsOf_def)
  moreover have "mapping (mapTable (initial pol prog nA nP nR w)) = map of_nat [0..<nA]"
    "map regNum (freeList (initial pol prog nA nP nR w)) = map of_nat [nA..<nP]"
    by (simp_all add: initial_proj new_MapTable_def new_FreeList_def comp_def)
  ultimately show ?thesis
    using regs_inv_partition [OF inv assms(3)] regs_inv_partition [OF pre assms(3)]
    by simp
qed

theorem register_conservation_witness:
  "wf_program 4 [(RSType_LOAD, 0, - 1, 1), (RSType_ALU, 0, 0, 2)]
   \<and> (4 :: nat) \<le> 8 \<and> (8 :: nat) \<le> 2 ^ 32
   \<and> regsOf (runCycles 8 (initial RefuseWhenFull
        [(RSType_LOAD, 0, - 1, 1), (RSType_ALU, 0, 0, 2)] 4 8 8 1)) = [6, 7, 0, 4, 5, 3, 2, 1]
   \<and> distinct (regsOf (runCycles 8 (initial RefuseWhenFull
        [(RSType_LOAD, 0, - 1, 1), (RSType_ALU, 0, 0, 2)] 4 8 8 1)))
   \<and> set (regsOf (runCycles 8 (initial RefuseWhenFull
        [(RSType_LOAD, 0, - 1, 1), (RSType_ALU, 0, 0, 2)] 4 8 8 1))) = {p. unat p < 8}"
proof -
  let ?p = "[(RSType_LOAD, 0, - 1, 1), (RSType_ALU, 0, 0, 2)]"
  have w: "wf_program 4 ?p" by (simp add: wf_program_def)
  have a: "(4 :: nat) \<le> 8" by simp
  have b: "(8 :: nat) \<le> 2 ^ 32" by simp
  have r: "regsOf (runCycles 8 (initial RefuseWhenFull ?p 4 8 8 1)) = [6, 7, 0, 4, 5, 3, 2, 1]"
    by code_simp
  show ?thesis
    using register_conservation [OF w a b, where n = 8 and pol = RefuseWhenFull and nR = 8 and w = 1]
      w r by simp
qed

section \<open>Release of old mappings\<close>

lemma retire_pending:
  "\<exists>k\<le>m. rob (for_loop m retire_body t) = drop k (rob t)
     \<and> freePhysRegsPrevCycle (for_loop m retire_body t)
         = freePhysRegsPrevCycle t @ map robTold (filter (hasDst t) (take k (rob t)))
     \<and> freeList (for_loop m retire_body t) = freeList t"
proof (induction m arbitrary: t)
  case 0
  then show ?case by simp
next
  case (Suc m)
  show ?case
  proof (cases "rob t = [] \<or> \<not> hasCompleted (instructionsList t ! robInst (hd (rob t)))")
    case True
    then have "for_loop (Suc m) retire_body t = t" by (rule retire_stop)
    then show ?thesis by (intro exI [of _ 0]) simp
  next
    case False
    then obtain e rest where r: "rob t = e # rest"
      and c: "hasCompleted (instructionsList t ! robInst e)"
      by (cases "rob t") auto
    let ?t = "retire_inst e t"
    have b: "for_loop (Suc m) retire_body t = for_loop m retire_body ?t"
      using r c by (simp add: retire_body_def)
    have h: "hasDst ?t = hasDst t"
      by (rule hasDst_cong) (simp add: retire_inst_nth)
    from Suc.IH [of ?t] obtain k where k: "k \<le> m"
      "rob (for_loop m retire_body ?t) = drop k (rob ?t)"
      "freePhysRegsPrevCycle (for_loop m retire_body ?t)
         = freePhysRegsPrevCycle ?t @ map robTold (filter (hasDst ?t) (take k (rob ?t)))"
      "freeList (for_loop m retire_body ?t) = freeList ?t"
      by blast
    show ?thesis
      using k unfolding b h
      by (intro exI [of _ "Suc k"]) (simp add: retire_inst_proj r hasDst_def [abs_def])
  qed
qed

text \<open>The stages after retire leave the registers pending release as they are.\<close>

definition pending_is :: "PhysicalRegister list \<Rightarrow> CPU \<Rightarrow> bool" where
  "pending_is ps s = (freePhysRegsPrevCycle s = ps)"

lemma pending_later_stages:
  "freePhysRegsPrevCycle (fetch (decode (dispatch (issue (execute (complete s))))))
   = freePhysRegsPrevCycle s"
proof -
  let ?P = "pending_is (freePhysRegsPrevCycle s)"
  have 0: "?P s" by (simp add: pending_is_def)
  have 1: "?P (complete s)"
    by (rule steps_preserve [where P = ?P, OF complete_steps 0])
       (auto simp: pending_is_def complete_step_def complete_inst_proj)
  have 2: "?P (execute (complete s))"
    by (rule steps_preserve [where P = ?P, OF execute_steps 1])
       (auto simp: pending_is_def execute_step_def execute_inst_proj)
  have 3: "?P (issue (execute (complete s)))"
    by (rule steps_preserve [where P = ?P, OF issue_steps 2])
       (auto simp: pending_is_def issue_step_def issue_inst_proj)
  have 4: "?P (dispatch (issue (execute (complete s))))"
    by (rule steps_preserve [where P = ?P, OF dispatch_steps 3])
       (auto simp: pending_is_def dispatch_step_def dispatch_inst_proj)
  have 5: "?P (decode (dispatch (issue (execute (complete s)))))"
    by (rule steps_preserve [where P = ?P, OF decode_steps 4])
       (auto simp: pending_is_def decode_step_def decode_inst_proj)
  have "?P (fetch (decode (dispatch (issue (execute (complete s))))))"
    by (rule steps_preserve [where P = ?P, OF fetch_steps 5])
       (auto simp: pending_is_def fetch_step_def fetch_inst_proj)
  then show ?thesis by (simp add: pending_is_def)
qed

text \<open>Dispatch takes registers from the front of the free list and adds none.\<close>

lemma dispatch_pops: "\<exists>m. freeList (dispatch s) = drop m (freeList s)"
proof (rule steps_preserve [where P = "\<lambda>a. \<exists>m. freeList a = drop m (freeList s)",
      OF dispatch_steps])
  show "\<exists>m. freeList s = drop m (freeList s)" by (intro exI [of _ 0]) simp
next
  fix a b assume "\<exists>m. freeList a = drop m (freeList s)" and "dispatch_step a b"
  then obtain m i j where m: "freeList a = drop m (freeList s)" and b: "b = dispatch_inst i j a"
    by (auto simp: dispatch_step_def)
  show "\<exists>m. freeList b = drop m (freeList s)"
  proof (cases "dstOp (instructionsList a ! i) \<noteq> - 1")
    case True
    then have "freeList b = drop (Suc m) (freeList s)"
      by (simp add: b dispatch_inst_proj m drop_Suc tl_drop)
    then show ?thesis by blast
  next
    case False
    then have "freeList b = drop m (freeList s)"
      by (simp add: b dispatch_inst_proj m)
    then show ?thesis by blast
  qed
qed

lemma pending_not_free:
  assumes "regs_inv nA nP s" and "nP \<le> 2 ^ 32"
  shows "set (map regNum (freePhysRegsPrevCycle s)) \<inter> set (map regNum (freeList s)) = {}"
  using regs_inv_partition(1) [OF assms] by (auto simp: regsOf_def)

text \<open>
  C6. In the retire stage of a cycle the ROB loses a prefix of its entries, and the
  registers pending release after the stage are the old mappings of the retired entries
  that have a destination, in retirement order; an entry without a destination adds
  nothing. The free list is not changed by retire. The later stages of the cycle leave the
  pending registers as they are, so they are the pending registers at the end of the
  cycle; between any two stages none of them is in the free list, and dispatch only removes
  registers from the front of the free list. The first action of the next cycle, before
  its stages, appends the pending registers to the free list.
\<close>

theorem told_released_next_cycle:
  assumes "wf_program nA prog" and "nA \<le> nP" and "nP \<le> 2 ^ 32"
  shows
   "(\<exists>k\<le>width (runCycles n (initial pol prog nA nP nR w)).
       rob (tickPrefix 1 ((runCycles n (initial pol prog nA nP nR w))\<lparr>hasProgress := False\<rparr>))
         = drop k (rob (runCycles n (initial pol prog nA nP nR w)))
       \<and> freePhysRegsPrevCycle
           (tickPrefix 1 ((runCycles n (initial pol prog nA nP nR w))\<lparr>hasProgress := False\<rparr>))
         = map robTold (filter (hasDst (runCycles n (initial pol prog nA nP nR w)))
             (take k (rob (runCycles n (initial pol prog nA nP nR w)))))
       \<and> freeList (tickPrefix 1 ((runCycles n (initial pol prog nA nP nR w))\<lparr>hasProgress := False\<rparr>))
         = freeList (tickPrefix 0 ((runCycles n (initial pol prog nA nP nR w))\<lparr>hasProgress := False\<rparr>)))
    \<and> (\<forall>j. set (map regNum (freePhysRegsPrevCycle
                 (tickPrefix j ((runCycles n (initial pol prog nA nP nR w))\<lparr>hasProgress := False\<rparr>))))
             \<inter> set (map regNum (freeList
                 (tickPrefix j ((runCycles n (initial pol prog nA nP nR w))\<lparr>hasProgress := False\<rparr>))))
           = {})
    \<and> (\<forall>x. \<exists>m. freeList (dispatch x) = drop m (freeList x))
    \<and> freePhysRegsPrevCycle (cycle_step (runCycles n (initial pol prog nA nP nR w)))
        = freePhysRegsPrevCycle
            (tickPrefix 1 ((runCycles n (initial pol prog nA nP nR w))\<lparr>hasProgress := False\<rparr>))
    \<and> freeList (tickPrefix 0 ((cycle_step (runCycles n (initial pol prog nA nP nR w)))
                   \<lparr>hasProgress := False\<rparr>))
        = freeList (cycle_step (runCycles n (initial pol prog nA nP nR w)))
          @ freePhysRegsPrevCycle (cycle_step (runCycles n (initial pol prog nA nP nR w)))"
proof (intro conjI allI)
  let ?s = "runCycles n (initial pol prog nA nP nR w)"
  let ?a = "admitFreed (?s\<lparr>hasProgress := False\<rparr>)"
  have inv: "regs_inv nA nP ?s"
    by (intro regs_inv_run regs_inv_initial assms)
  obtain k where k: "k \<le> width ?a" "rob (retire ?a) = drop k (rob ?a)"
    "freePhysRegsPrevCycle (retire ?a)
       = freePhysRegsPrevCycle ?a @ map robTold (filter (hasDst ?a) (take k (rob ?a)))"
    "freeList (retire ?a) = freeList ?a"
    using retire_pending [of "width ?a" ?a] unfolding retire_def by blast
  have h: "hasDst ?a = hasDst ?s"
    by (rule hasDst_cong) (simp add: admitFreed_def)
  show "\<exists>k\<le>width ?s.
       rob (tickPrefix 1 (?s\<lparr>hasProgress := False\<rparr>)) = drop k (rob ?s)
       \<and> freePhysRegsPrevCycle (tickPrefix 1 (?s\<lparr>hasProgress := False\<rparr>))
         = map robTold (filter (hasDst ?s) (take k (rob ?s)))
       \<and> freeList (tickPrefix 1 (?s\<lparr>hasProgress := False\<rparr>))
         = freeList (tickPrefix 0 (?s\<lparr>hasProgress := False\<rparr>))"
    using k unfolding h tickPrefix_1
    by (intro exI [of _ k]) (simp add: admitFreed_def)
  have pre: "regs_inv nA nP (tickPrefix j (?s\<lparr>hasProgress := False\<rparr>))" for j
    by (intro regs_inv_tickPrefix regs_inv_flag inv)
  show "set (map regNum (freePhysRegsPrevCycle (tickPrefix j (?s\<lparr>hasProgress := False\<rparr>))))
          \<inter> set (map regNum (freeList (tickPrefix j (?s\<lparr>hasProgress := False\<rparr>)))) = {}" for j
    using pre [of j] assms(3) by (rule pending_not_free)
  show "\<exists>m. freeList (dispatch x) = drop m (freeList x)" for x
    by (rule dispatch_pops)
  show "freePhysRegsPrevCycle (cycle_step ?s)
        = freePhysRegsPrevCycle (tickPrefix 1 (?s\<lparr>hasProgress := False\<rparr>))"
    unfolding tickPrefix_1
    by (simp add: cycle_step_def Let_def tick_def pending_later_stages)
  show "freeList (tickPrefix 0 ((cycle_step ?s)\<lparr>hasProgress := False\<rparr>))
        = freeList (cycle_step ?s) @ freePhysRegsPrevCycle (cycle_step ?s)"
    by (simp add: admitFreed_def)
qed

theorem told_released_next_cycle_witness:
  "wf_program 4 [(RSType_LOAD, 0, - 1, 1), (RSType_ALU, 0, 0, 2)]
   \<and> (4 :: nat) \<le> 8 \<and> (8 :: nat) \<le> 2 ^ 32
   \<and> map robInst (rob (runCycles 7 (initial RefuseWhenFull
        [(RSType_LOAD, 0, - 1, 1), (RSType_ALU, 0, 0, 2)] 4 8 8 1))) = [0, 1]
   \<and> retireCycle (instructionsList (runCycles 8 (initial RefuseWhenFull
        [(RSType_LOAD, 0, - 1, 1), (RSType_ALU, 0, 0, 2)] 4 8 8 1)) ! 0) = Some 7
   \<and> map regNum (freePhysRegsPrevCycle (tickPrefix 1 ((runCycles 7 (initial RefuseWhenFull
        [(RSType_LOAD, 0, - 1, 1), (RSType_ALU, 0, 0, 2)] 4 8 8 1))\<lparr>hasProgress := False\<rparr>))) = [1]
   \<and> map regNum (freePhysRegsPrevCycle (runCycles 8 (initial RefuseWhenFull
        [(RSType_LOAD, 0, - 1, 1), (RSType_ALU, 0, 0, 2)] 4 8 8 1))) = [1]
   \<and> map regNum (freeList (runCycles 8 (initial RefuseWhenFull
        [(RSType_LOAD, 0, - 1, 1), (RSType_ALU, 0, 0, 2)] 4 8 8 1))) = [6, 7]
   \<and> map regNum (freeList (tickPrefix 0 ((runCycles 8 (initial RefuseWhenFull
        [(RSType_LOAD, 0, - 1, 1), (RSType_ALU, 0, 0, 2)] 4 8 8 1))\<lparr>hasProgress := False\<rparr>)))
      = [6, 7, 1]"
proof -
  let ?p = "[(RSType_LOAD, 0, - 1, 1), (RSType_ALU, 0, 0, 2)]"
  let ?s = "runCycles 7 (initial RefuseWhenFull ?p 4 8 8 1)"
  have w: "wf_program 4 ?p" by (simp add: wf_program_def)
  have a: "(4 :: nat) \<le> 8" by simp
  have b: "(8 :: nat) \<le> 2 ^ 32" by simp
  have r: "map robInst (rob ?s) = [0, 1]" by code_simp
  have rc: "retireCycle (instructionsList (runCycles 8 (initial RefuseWhenFull ?p 4 8 8 1)) ! 0) = Some 7"
    by code_simp
  have p: "map regNum (freePhysRegsPrevCycle (tickPrefix 1 (?s\<lparr>hasProgress := False\<rparr>))) = [1]"
    by code_simp
  have f: "map regNum (freeList (cycle_step ?s)) = [6, 7]" by code_simp
  have e: "runCycles 8 (initial RefuseWhenFull ?p 4 8 8 1) = cycle_step ?s"
    by (simp add: eval_nat_numeral runCycles_Suc del: runCycles.simps)
  note t = told_released_next_cycle [OF w a b,
      where n = 7 and pol = RefuseWhenFull and nR = 8 and w = 1]
  from t have p8: "freePhysRegsPrevCycle (cycle_step ?s)
      = freePhysRegsPrevCycle (tickPrefix 1 (?s\<lparr>hasProgress := False\<rparr>))"
    by blast
  from t have f8: "freeList (tickPrefix 0 ((cycle_step ?s)\<lparr>hasProgress := False\<rparr>))
      = freeList (cycle_step ?s) @ freePhysRegsPrevCycle (cycle_step ?s)"
    by blast
  show ?thesis
    unfolding e using w r rc [unfolded e] p f p8 f8 by simp
qed

section \<open>Execution latency and the complete queue\<close>


text \<open>Every instruction index held by a queue or a reservation station is in range.\<close>

definition ids_inv :: "CPU \<Rightarrow> bool" where
  "ids_inv s =
     (fetchPtr s \<le> length (instructionsList s)
      \<and> (\<forall>i \<in> set (decodeStage s). i < length (instructionsList s))
      \<and> (\<forall>i \<in> set (dispatchStage s). i < length (instructionsList s))
      \<and> (\<forall>j i. j < length (reservationStations s) \<longrightarrow>
             rsInst (reservationStations s ! j) = Some i \<longrightarrow> i < length (instructionsList s))
      \<and> (\<forall>i \<in> set (executeStage s). i < length (instructionsList s))
      \<and> (\<forall>i \<in> set (completeStage s). i < length (instructionsList s)))"


lemma set_erase_at: "x \<in> set (erase_at j xs) \<Longrightarrow> x \<in> set xs"
  unfolding erase_at_def by (auto dest: in_set_takeD in_set_dropD)




subsection \<open>Indices stay in range\<close>

lemma ids_inv_retire_step: "ids_inv s \<Longrightarrow> retire_step s t \<Longrightarrow> ids_inv t"
  unfolding ids_inv_def retire_step_def by (auto simp: retire_inst_proj)

lemma ids_inv_complete_step: "ids_inv s \<Longrightarrow> complete_step s t \<Longrightarrow> ids_inv t"
  unfolding ids_inv_def complete_step_def
  by (auto simp: complete_inst_proj dest!: set_erase_at)

lemma ids_inv_execute_step:
  assumes "ids_inv s" and "execute_step s t"
  shows "ids_inv t"
proof -
  from assms(2) obtain i rest where e: "executeStage s = i # rest" and t: "t = execute_inst i s"
    by (auto simp: execute_step_def)
  have rs: "rsInst (reservationStations t ! j) = Some x \<Longrightarrow>
            rsInst (reservationStations s ! j) = Some x" for j x
    unfolding t
    by (cases "allocatedRs (instructionsList s ! i)")
       (auto simp: execute_inst_proj nth_upd_gen split: if_splits)
  have len: "length (reservationStations t) = length (reservationStations s)"
    unfolding t by (cases "allocatedRs (instructionsList s ! i)") (simp_all add: execute_inst_proj)
  show ?thesis
    using assms(1) e rs len unfolding ids_inv_def
    by (auto simp: t execute_inst_proj)
qed

lemma ids_inv_issue_step: "ids_inv s \<Longrightarrow> issue_step s t \<Longrightarrow> ids_inv t"
  unfolding ids_inv_def issue_step_def by (auto simp: issue_inst_proj)

lemma ids_inv_dispatch_step:
  assumes "ids_inv s" and "dispatch_step s t"
  shows "ids_inv t"
proof -
  from assms(2) obtain i rest j where d: "dispatchStage s = i # rest"
    and t: "t = dispatch_inst i j s"
    by (auto simp: dispatch_step_def)
  show ?thesis
    using assms(1) d unfolding ids_inv_def
    by (auto simp: t dispatch_inst_proj nth_upd_gen split: if_splits)
qed

lemma ids_inv_decode_step: "ids_inv s \<Longrightarrow> decode_step s t \<Longrightarrow> ids_inv t"
  unfolding ids_inv_def decode_step_def
  by (auto simp: decode_inst_proj dest!: list.set_sel(2))

lemma ids_inv_fetch_step: "ids_inv s \<Longrightarrow> fetch_step s t \<Longrightarrow> ids_inv t"
  unfolding ids_inv_def fetch_step_def by (auto simp: fetch_inst_proj)

lemma ids_inv_run:
  assumes "ids_inv s"
  shows "ids_inv (runCycles n s)"
  using assms
proof (rule runCycles_preserve)
  show "ids_inv a \<Longrightarrow> ids_inv (a\<lparr>hasProgress := False\<rparr>)" for a by (simp add: ids_inv_def)
  show "ids_inv a \<Longrightarrow> ids_inv (a\<lparr>cycle := cycle a + 1\<rparr>)" for a by (simp add: ids_inv_def)
  show "ids_inv a \<Longrightarrow> ids_inv (admitFreed a)" for a by (simp add: ids_inv_def admitFreed_def)
qed (fact ids_inv_retire_step ids_inv_complete_step ids_inv_execute_step ids_inv_issue_step
       ids_inv_dispatch_step ids_inv_decode_step ids_inv_fetch_step)+

lemma ids_inv_prefix:
  assumes "ids_inv s"
  shows "ids_inv (tickPrefix k s)"
  using assms
proof (rule tickPrefix_preserve)
  show "ids_inv a \<Longrightarrow> ids_inv (admitFreed a)" for a by (simp add: ids_inv_def admitFreed_def)
qed (fact ids_inv_retire_step ids_inv_complete_step ids_inv_execute_step ids_inv_issue_step
       ids_inv_dispatch_step ids_inv_decode_step ids_inv_fetch_step)+


subsection \<open>Issue, execute and complete stamps\<close>



























subsection \<open>The scan of the complete queue\<close>














subsection \<open>Completions counted in the trace\<close>












section \<open>Stage stamps\<close>

text \<open>
  \<open>before a b\<close>: if the later stamp \<open>b\<close> is set, the earlier stamp \<open>a\<close> is set and strictly
  smaller. \<open>under a m\<close>: a stamp that is set is smaller than \<open>m\<close>.
\<close>

definition before :: "nat option \<Rightarrow> nat option \<Rightarrow> bool" where
  "before a b =
     (case b of None \<Rightarrow> True | Some t \<Rightarrow> (case a of None \<Rightarrow> False | Some u \<Rightarrow> u < t))"

definition under :: "nat option \<Rightarrow> nat \<Rightarrow> bool" where
  "under a m = (case a of None \<Rightarrow> True | Some t \<Rightarrow> t < m)"

definition chain :: "Instruction \<Rightarrow> bool" where
  "chain x =
     (before (fetchCycle x) (decodeCycle x) \<and> before (decodeCycle x) (dispatchCycle x)
      \<and> before (dispatchCycle x) (issueCycle x) \<and> before (issueCycle x) (executeCycle x)
      \<and> before (executeCycle x) (completeCycle x) \<and> before (completeCycle x) (retireCycle x))"

text \<open>
  The stages of a cycle run in the order retire, complete, execute, issue, dispatch, decode,
  fetch. When \<open>k\<close> of them have started, a stamp of one of these \<open>k\<close> stages may be the
  current cycle; the stamps of the others are from earlier cycles.
\<close>

fun stageOrder :: "stage \<Rightarrow> nat" where
  "stageOrder Retire = 1"
| "stageOrder Complete = 2"
| "stageOrder Execute = 3"
| "stageOrder Issue = 4"
| "stageOrder Dispatch = 5"
| "stageOrder Decode = 6"
| "stageOrder Fetch = 7"

definition bnd :: "nat \<Rightarrow> stage \<Rightarrow> nat \<Rightarrow> nat" where
  "bnd k X c = (if stageOrder X \<le> k then Suc c else c)"

definition bounds :: "nat \<Rightarrow> nat \<Rightarrow> Instruction \<Rightarrow> bool" where
  "bounds k c x =
     (under (fetchCycle x) (bnd k Fetch c) \<and> under (decodeCycle x) (bnd k Decode c)
      \<and> under (dispatchCycle x) (bnd k Dispatch c) \<and> under (issueCycle x) (bnd k Issue c)
      \<and> under (executeCycle x) (bnd k Execute c) \<and> under (completeCycle x) (bnd k Complete c)
      \<and> under (retireCycle x) (bnd k Retire c))"

text \<open>
  Where the instructions are: an instruction not yet fetched has no stamp; one in the decode
  queue is fetched and not decoded; one in the dispatch queue is decoded and not dispatched;
  one held by a reservation station is dispatched to that station and not executed; one in
  the execute queue is issued and not executed; one in the complete queue is executed and
  not completed; one in the ROB is dispatched and not retired. No container holds an
  instruction twice.
\<close>

definition phase_inv :: "nat \<Rightarrow> CPU \<Rightarrow> bool" where
  "phase_inv k s =
     (fetchPtr s \<le> length (instructionsList s)
      \<and> (\<forall>i < length (instructionsList s).
            chain (instructionsList s ! i) \<and> bounds k (cycle s) (instructionsList s ! i))
      \<and> (\<forall>i < length (instructionsList s).
            fetchPtr s \<le> i \<longrightarrow> fetchCycle (instructionsList s ! i) = None)
      \<and> distinct (decodeStage s)
      \<and> (\<forall>i \<in> set (decodeStage s). i < length (instructionsList s)
            \<and> fetchCycle (instructionsList s ! i) \<noteq> None
            \<and> decodeCycle (instructionsList s ! i) = None)
      \<and> distinct (dispatchStage s)
      \<and> (\<forall>i \<in> set (dispatchStage s). i < length (instructionsList s)
            \<and> decodeCycle (instructionsList s ! i) \<noteq> None
            \<and> dispatchCycle (instructionsList s ! i) = None)
      \<and> (\<forall>j i. j < length (reservationStations s) \<longrightarrow>
            rsInst (reservationStations s ! j) = Some i \<longrightarrow>
            i < length (instructionsList s)
            \<and> dispatchCycle (instructionsList s ! i) \<noteq> None
            \<and> executeCycle (instructionsList s ! i) = None
            \<and> allocatedRs (instructionsList s ! i) = Some j)
      \<and> distinct (executeStage s)
      \<and> (\<forall>i \<in> set (executeStage s). i < length (instructionsList s)
            \<and> issueCycle (instructionsList s ! i) \<noteq> None
            \<and> executeCycle (instructionsList s ! i) = None)
      \<and> distinct (completeStage s)
      \<and> (\<forall>i \<in> set (completeStage s). i < length (instructionsList s)
            \<and> executeCycle (instructionsList s ! i) \<noteq> None
            \<and> completeCycle (instructionsList s ! i) = None)
      \<and> distinct (map robInst (rob s))
      \<and> (\<forall>x \<in> set (rob s). robInst x < length (instructionsList s)
            \<and> dispatchCycle (instructionsList s ! robInst x) \<noteq> None
            \<and> retireCycle (instructionsList s ! robInst x) = None))"

lemma phase_invD:
  assumes "phase_inv k s"
  shows "fetchPtr s \<le> length (instructionsList s)"
    and "\<And>i. i < length (instructionsList s) \<Longrightarrow> chain (instructionsList s ! i)"
    and "\<And>i. i < length (instructionsList s) \<Longrightarrow> bounds k (cycle s) (instructionsList s ! i)"
    and "\<And>i. i < length (instructionsList s) \<Longrightarrow> fetchPtr s \<le> i \<Longrightarrow>
           fetchCycle (instructionsList s ! i) = None"
    and "distinct (decodeStage s)"
    and "\<And>i. i \<in> set (decodeStage s) \<Longrightarrow> i < length (instructionsList s)
            \<and> fetchCycle (instructionsList s ! i) \<noteq> None
            \<and> decodeCycle (instructionsList s ! i) = None"
    and "distinct (dispatchStage s)"
    and "\<And>i. i \<in> set (dispatchStage s) \<Longrightarrow> i < length (instructionsList s)
            \<and> decodeCycle (instructionsList s ! i) \<noteq> None
            \<and> dispatchCycle (instructionsList s ! i) = None"
    and "\<And>j i. j < length (reservationStations s) \<Longrightarrow>
            rsInst (reservationStations s ! j) = Some i \<Longrightarrow>
            i < length (instructionsList s)
            \<and> dispatchCycle (instructionsList s ! i) \<noteq> None
            \<and> executeCycle (instructionsList s ! i) = None
            \<and> allocatedRs (instructionsList s ! i) = Some j"
    and "distinct (executeStage s)"
    and "\<And>i. i \<in> set (executeStage s) \<Longrightarrow> i < length (instructionsList s)
            \<and> issueCycle (instructionsList s ! i) \<noteq> None
            \<and> executeCycle (instructionsList s ! i) = None"
    and "distinct (completeStage s)"
    and "\<And>i. i \<in> set (completeStage s) \<Longrightarrow> i < length (instructionsList s)
            \<and> executeCycle (instructionsList s ! i) \<noteq> None
            \<and> completeCycle (instructionsList s ! i) = None"
    and "distinct (map robInst (rob s))"
    and "\<And>x. x \<in> set (rob s) \<Longrightarrow> robInst x < length (instructionsList s)
            \<and> dispatchCycle (instructionsList s ! robInst x) \<noteq> None
            \<and> retireCycle (instructionsList s ! robInst x) = None"
  using assms unfolding phase_inv_def by blast+

lemma phase_invI:
  assumes "fetchPtr s \<le> length (instructionsList s)"
    and "\<And>i. i < length (instructionsList s) \<Longrightarrow>
           chain (instructionsList s ! i) \<and> bounds k (cycle s) (instructionsList s ! i)"
    and "\<And>i. i < length (instructionsList s) \<Longrightarrow> fetchPtr s \<le> i \<Longrightarrow>
           fetchCycle (instructionsList s ! i) = None"
    and "distinct (decodeStage s)"
    and "\<And>i. i \<in> set (decodeStage s) \<Longrightarrow> i < length (instructionsList s)
            \<and> fetchCycle (instructionsList s ! i) \<noteq> None
            \<and> decodeCycle (instructionsList s ! i) = None"
    and "distinct (dispatchStage s)"
    and "\<And>i. i \<in> set (dispatchStage s) \<Longrightarrow> i < length (instructionsList s)
            \<and> decodeCycle (instructionsList s ! i) \<noteq> None
            \<and> dispatchCycle (instructionsList s ! i) = None"
    and "\<And>j i. j < length (reservationStations s) \<Longrightarrow>
            rsInst (reservationStations s ! j) = Some i \<Longrightarrow>
            i < length (instructionsList s)
            \<and> dispatchCycle (instructionsList s ! i) \<noteq> None
            \<and> executeCycle (instructionsList s ! i) = None
            \<and> allocatedRs (instructionsList s ! i) = Some j"
    and "distinct (executeStage s)"
    and "\<And>i. i \<in> set (executeStage s) \<Longrightarrow> i < length (instructionsList s)
            \<and> issueCycle (instructionsList s ! i) \<noteq> None
            \<and> executeCycle (instructionsList s ! i) = None"
    and "distinct (completeStage s)"
    and "\<And>i. i \<in> set (completeStage s) \<Longrightarrow> i < length (instructionsList s)
            \<and> executeCycle (instructionsList s ! i) \<noteq> None
            \<and> completeCycle (instructionsList s ! i) = None"
    and "distinct (map robInst (rob s))"
    and "\<And>x. x \<in> set (rob s) \<Longrightarrow> robInst x < length (instructionsList s)
            \<and> dispatchCycle (instructionsList s ! robInst x) \<noteq> None
            \<and> retireCycle (instructionsList s ! robInst x) = None"
  shows "phase_inv k s"
  unfolding phase_inv_def using assms by blast

text \<open>The stage whose stamp a stage requires.\<close>

fun prevStage :: "stage \<Rightarrow> stage option" where
  "prevStage Fetch = None"
| "prevStage Decode = Some Fetch"
| "prevStage Dispatch = Some Decode"
| "prevStage Issue = Some Dispatch"
| "prevStage Execute = Some Issue"
| "prevStage Complete = Some Execute"
| "prevStage Retire = Some Complete"

lemma stamps_same:
  assumes "\<And>Z. stampOf Z y = stampOf Z x"
  shows "chain y = chain x" and "bounds k c y = bounds k c x"
proof -
  have "fetchCycle y = fetchCycle x" "decodeCycle y = decodeCycle x"
    "dispatchCycle y = dispatchCycle x" "issueCycle y = issueCycle x"
    "executeCycle y = executeCycle x" "completeCycle y = completeCycle x"
    "retireCycle y = retireCycle x"
    using assms [of Fetch] assms [of Decode] assms [of Dispatch] assms [of Issue]
      assms [of Execute] assms [of Complete] assms [of Retire] by simp_all
  then show "chain y = chain x" and "bounds k c y = bounds k c x"
    by (simp_all add: chain_def bounds_def)
qed

text \<open>
  Setting the stamp of stage \<open>X\<close> to the current cycle keeps the stamps in order when the
  stamp was not set, the stage has started, and the stamp of the stage before is set and
  from an earlier cycle.
\<close>

lemma stamp_set:
  assumes "chain x" and "bounds k c x" and "stampOf X x = None" and "stageOrder X \<le> k"
    and "\<And>Y. prevStage X = Some Y \<Longrightarrow> stampOf Y x \<noteq> None \<and> k < stageOrder Y"
    and "\<And>Z. stampOf Z y = (if Z = X then Some c else stampOf Z x)"
  shows "chain y \<and> bounds k c y"
proof -
  have y: "fetchCycle y = (if X = Fetch then Some c else fetchCycle x)"
    "decodeCycle y = (if X = Decode then Some c else decodeCycle x)"
    "dispatchCycle y = (if X = Dispatch then Some c else dispatchCycle x)"
    "issueCycle y = (if X = Issue then Some c else issueCycle x)"
    "executeCycle y = (if X = Execute then Some c else executeCycle x)"
    "completeCycle y = (if X = Complete then Some c else completeCycle x)"
    "retireCycle y = (if X = Retire then Some c else retireCycle x)"
    using assms(6) [of Fetch] assms(6) [of Decode] assms(6) [of Dispatch] assms(6) [of Issue]
      assms(6) [of Execute] assms(6) [of Complete] assms(6) [of Retire] by auto
  show ?thesis
  proof (cases X)
    case Fetch
    then show ?thesis
      using assms(1-4) unfolding chain_def bounds_def y
      by (auto simp: before_def under_def bnd_def split: option.splits)
  next
    case Decode
    then show ?thesis
      using assms(1-4) assms(5) [of Fetch] unfolding chain_def bounds_def y
      by (auto simp: before_def under_def bnd_def split: option.splits)
  next
    case Dispatch
    then show ?thesis
      using assms(1-4) assms(5) [of Decode] unfolding chain_def bounds_def y
      by (auto simp: before_def under_def bnd_def split: option.splits)
  next
    case Issue
    then show ?thesis
      using assms(1-4) assms(5) [of Dispatch] unfolding chain_def bounds_def y
      by (auto simp: before_def under_def bnd_def split: option.splits)
  next
    case Execute
    then show ?thesis
      using assms(1-4) assms(5) [of Issue] unfolding chain_def bounds_def y
      by (auto simp: before_def under_def bnd_def split: option.splits)
  next
    case Complete
    then show ?thesis
      using assms(1-4) assms(5) [of Execute] unfolding chain_def bounds_def y
      by (auto simp: before_def under_def bnd_def split: option.splits)
  next
    case Retire
    then show ?thesis
      using assms(1-4) assms(5) [of Complete] unfolding chain_def bounds_def y
      by (auto simp: before_def under_def bnd_def split: option.splits)
  qed
qed

text \<open>What a set or unset stamp says about the stamps of the other stages.\<close>

lemma chain_unset:
  assumes "chain x"
  shows "fetchCycle x = None \<Longrightarrow> decodeCycle x = None"
    and "decodeCycle x = None \<Longrightarrow> dispatchCycle x = None"
    and "dispatchCycle x = None \<Longrightarrow> issueCycle x = None"
    and "issueCycle x = None \<Longrightarrow> executeCycle x = None"
    and "executeCycle x = None \<Longrightarrow> completeCycle x = None"
    and "completeCycle x = None \<Longrightarrow> retireCycle x = None"
  using assms unfolding chain_def before_def by (auto split: option.splits)

lemma step_stamps:
  assumes inv: "\<And>m. m < n \<Longrightarrow> chain (xs ! m) \<and> bounds k c (xs ! m)"
    and i: "i < n" and none: "stampOf X (xs ! i) = None" and ord: "stageOrder X \<le> k"
    and prev: "\<And>Y. prevStage X = Some Y \<Longrightarrow> stampOf Y (xs ! i) \<noteq> None \<and> k < stageOrder Y"
    and upd: "\<And>Z m. stampOf Z (ys ! m) = (if m = i \<and> Z = X then Some c else stampOf Z (xs ! m))"
    and m: "m < n"
  shows "chain (ys ! m) \<and> bounds k c (ys ! m)"
proof (cases "m = i")
  case True
  show ?thesis
    unfolding True
    by (rule stamp_set [where x = "xs ! i" and X = X])
       (use inv [OF i] none ord prev upd in auto)
next
  case False
  then have "stampOf Z (ys ! m) = stampOf Z (xs ! m)" for Z by (simp add: upd)
  then show ?thesis using stamps_same [of "ys ! m" "xs ! m"] inv [OF m] by simp
qed

subsection \<open>Every step keeps the stamps in order\<close>

lemma phase_inv_retire_step:
  assumes "phase_inv 1 s" and "retire_step s t"
  shows "phase_inv 1 t"
proof -
  from assms(2) obtain e rest where r: "rob s = e # rest"
    and c: "hasCompleted (instructionsList s ! robInst e)" and t: "t = retire_inst e s"
    by (auto simp: retire_step_def)
  note d = phase_invD [OF assms(1)]
  let ?i = "robInst e"
  have i: "?i < length (instructionsList s)" "retireCycle (instructionsList s ! ?i) = None"
    using d(15) [of e] r by simp_all
  have upd: "stampOf Z (instructionsList t ! m)
      = (if m = ?i \<and> Z = Retire then Some (cycle s) else stampOf Z (instructionsList s ! m))" for Z m
    using i(1) by (cases Z) (simp_all add: t retire_inst_nth)
  have st: "chain (instructionsList t ! m) \<and> bounds 1 (cycle s) (instructionsList t ! m)"
    if "m < length (instructionsList s)" for m
  proof (rule step_stamps [where xs = "instructionsList s" and X = Retire and i = ?i
        and n = "length (instructionsList s)"])
    show "stampOf Retire (instructionsList s ! ?i) = None" using i(2) by simp
    show "stampOf Y (instructionsList s ! ?i) \<noteq> None \<and> 1 < stageOrder Y"
      if "prevStage Retire = Some Y" for Y
      using that c by (auto simp: hasCompleted_def)
  qed (use d(2,3) i(1) upd that in auto)
  have same: "fetchCycle (instructionsList t ! m) = fetchCycle (instructionsList s ! m)"
    "decodeCycle (instructionsList t ! m) = decodeCycle (instructionsList s ! m)"
    "dispatchCycle (instructionsList t ! m) = dispatchCycle (instructionsList s ! m)"
    "issueCycle (instructionsList t ! m) = issueCycle (instructionsList s ! m)"
    "executeCycle (instructionsList t ! m) = executeCycle (instructionsList s ! m)"
    "completeCycle (instructionsList t ! m) = completeCycle (instructionsList s ! m)"
    "allocatedRs (instructionsList t ! m) = allocatedRs (instructionsList s ! m)" for m
    by (simp_all add: t retire_inst_nth)
  have rc: "retireCycle (instructionsList t ! m)
      = (if m = ?i then Some (cycle s) else retireCycle (instructionsList s ! m))" for m
    using i(1) by (simp add: t retire_inst_nth)
  have q: "fetchPtr t = fetchPtr s" "decodeStage t = decodeStage s"
    "dispatchStage t = dispatchStage s" "executeStage t = executeStage s"
    "completeStage t = completeStage s" "reservationStations t = reservationStations s"
    "rob t = rest" "cycle t = cycle s"
    "length (instructionsList t) = length (instructionsList s)"
    by (simp_all add: t retire_inst_proj r)
  show ?thesis
  proof (rule phase_invI, goal_cases)
    case 1
    show ?case using d(1) by (simp add: q)
  next
    case (2 m)
    then show ?case using st [of m] by (simp add: q)
  next
    case (3 m)
    then show ?case using d(4) [of m] by (simp add: q same)
  next
    case 4
    show ?case using d(5) by (simp add: q)
  next
    case (5 m)
    then show ?case using d(6) [of m] by (simp add: q same)
  next
    case 6
    show ?case using d(7) by (simp add: q)
  next
    case (7 m)
    then show ?case using d(8) [of m] by (simp add: q same)
  next
    case (8 j m)
    then show ?case using d(9) [of j m] by (simp add: q same)
  next
    case 9
    show ?case using d(10) by (simp add: q)
  next
    case (10 m)
    then show ?case using d(11) [of m] by (simp add: q same)
  next
    case 11
    show ?case using d(12) by (simp add: q)
  next
    case (12 m)
    then show ?case using d(13) [of m] by (simp add: q same)
  next
    case 13
    show ?case using d(14) by (simp add: q r)
  next
    case (14 x)
    then have "robInst x \<noteq> ?i" using d(14) by (force simp: q r image_iff)
    then show ?case using d(15) [of x] 14 by (simp add: q r same rc)
  qed
qed

lemma distinct_erase_at: "distinct xs \<Longrightarrow> distinct (erase_at j xs)"
  unfolding erase_at_def
  using set_take_disj_set_drop_if_distinct [of xs j "Suc j"] by simp

lemma nth_notin_erase_at:
  assumes "distinct xs" and "j < length xs"
  shows "xs ! j \<notin> set (erase_at j xs)"
proof -
  have "distinct (take j xs @ xs ! j # drop (Suc j) xs)"
    using id_take_nth_drop [OF assms(2)] assms(1) by simp
  then show ?thesis by (auto simp: erase_at_def)
qed

lemma phase_inv_complete_step:
  assumes "phase_inv 2 s" and "complete_step s t"
  shows "phase_inv 2 t"
proof -
  from assms(2) consider
    (inst) j where "j < length (completeStage s)" "t = complete_inst j s"
    | (flag) "t = s\<lparr>hasProgress := True\<rparr>"
    by (auto simp: complete_step_def)
  then show ?thesis
  proof cases
    case flag
    with assms(1) show ?thesis by (simp add: phase_inv_def)
  next
    case inst
  note t = inst(2)
  note d = phase_invD [OF assms(1)]
  let ?i = "completeStage s ! j"
  have i: "?i < length (instructionsList s)" "completeCycle (instructionsList s ! ?i) = None"
    "executeCycle (instructionsList s ! ?i) \<noteq> None"
    using d(13) [of ?i] inst(1) by simp_all
  have upd: "stampOf Z (instructionsList t ! m)
      = (if m = ?i \<and> Z = Complete then Some (cycle s) else stampOf Z (instructionsList s ! m))" for Z m
    using i(1) by (cases Z) (simp_all add: t complete_inst_nth)
  have st: "chain (instructionsList t ! m) \<and> bounds 2 (cycle s) (instructionsList t ! m)"
    if "m < length (instructionsList s)" for m
  proof (rule step_stamps [where xs = "instructionsList s" and X = Complete and i = ?i
        and n = "length (instructionsList s)"])
    show "stampOf Complete (instructionsList s ! ?i) = None" using i by simp
    show "stampOf Y (instructionsList s ! ?i) \<noteq> None \<and> 2 < stageOrder Y"
      if "prevStage Complete = Some Y" for Y
      using that i by auto
  qed (use d(2,3) i(1) upd that in auto)
  have same: "fetchCycle (instructionsList t ! m) = fetchCycle (instructionsList s ! m)"
    "decodeCycle (instructionsList t ! m) = decodeCycle (instructionsList s ! m)"
    "dispatchCycle (instructionsList t ! m) = dispatchCycle (instructionsList s ! m)"
    "issueCycle (instructionsList t ! m) = issueCycle (instructionsList s ! m)"
    "executeCycle (instructionsList t ! m) = executeCycle (instructionsList s ! m)"
    "retireCycle (instructionsList t ! m) = retireCycle (instructionsList s ! m)"
    "allocatedRs (instructionsList t ! m) = allocatedRs (instructionsList s ! m)" for m
    by (simp_all add: t complete_inst_nth)
  have chg: "completeCycle (instructionsList t ! m)
      = (if m = ?i then Some (cycle s) else completeCycle (instructionsList s ! m))" for m
    using i(1) by (simp add: t complete_inst_nth)
  have q: "fetchPtr t = fetchPtr s"
    "decodeStage t = decodeStage s"
    "dispatchStage t = dispatchStage s"
    "executeStage t = executeStage s"
    "completeStage t = erase_at j (completeStage s)"
    "reservationStations t = reservationStations s"
    "rob t = rob s"
    "cycle t = cycle s"
    "length (instructionsList t) = length (instructionsList s)"
    by (simp_all add: t complete_inst_proj)
  show ?thesis
  proof (rule phase_invI, goal_cases)
    case 1
    show ?case using d(1) by (simp add: q)
  next
    case (2 m)
    then show ?case using st [of m] by (simp add: q)
  next
    case (3 m)
    then show ?case using d(4) [of m] by (simp add: q same)
  next
    case 4
    show ?case using d(5) by (simp add: q)
  next
    case (5 m)
    then show ?case using d(6) [of m] by (simp add: q same)
  next
    case 6
    show ?case using d(7) by (simp add: q)
  next
    case (7 m)
    then show ?case using d(8) [of m] by (simp add: q same)
  next
    case (8 j m)
    then show ?case using d(9) [of j m] by (simp add: q same)
  next
    case 9
    show ?case using d(10) by (simp add: q)
  next
    case (10 m)
    then show ?case using d(11) [of m] by (simp add: q same)
  next
    case 11
    show ?case using d(12) by (simp add: q distinct_erase_at)
  next
    case (12 m)
    then have m: "m \<in> set (completeStage s)" by (auto simp: q dest: set_erase_at)
    have "m \<noteq> ?i" using 12 nth_notin_erase_at [OF d(12) inst(1)] by (auto simp: q)
    then show ?case using d(13) [OF m] by (simp add: q same chg)
  next
    case 13
    show ?case using d(14) by (simp add: q)
  next
    case (14 x)
    then show ?case using d(15) [of x] by (simp add: q same)
  qed
  qed
qed

lemma phase_inv_execute_step:
  assumes "phase_inv 3 s" and "execute_step s t"
  shows "phase_inv 3 t"
proof -
  from assms(2) obtain i rest where e: "executeStage s = i # rest" and t: "t = execute_inst i s"
    by (auto simp: execute_step_def)
  note d = phase_invD [OF assms(1)]
  let ?i = i
  have i: "?i < length (instructionsList s)" "executeCycle (instructionsList s ! ?i) = None"
    "issueCycle (instructionsList s ! ?i) \<noteq> None"
    using d(11) [of i] e by simp_all
  have upd: "stampOf Z (instructionsList t ! m)
      = (if m = ?i \<and> Z = Execute then Some (cycle s) else stampOf Z (instructionsList s ! m))" for Z m
    using i(1) by (cases Z) (simp_all add: t execute_inst_nth)
  have st: "chain (instructionsList t ! m) \<and> bounds 3 (cycle s) (instructionsList t ! m)"
    if "m < length (instructionsList s)" for m
  proof (rule step_stamps [where xs = "instructionsList s" and X = Execute and i = ?i
        and n = "length (instructionsList s)"])
    show "stampOf Execute (instructionsList s ! ?i) = None" using i by simp
    show "stampOf Y (instructionsList s ! ?i) \<noteq> None \<and> 3 < stageOrder Y"
      if "prevStage Execute = Some Y" for Y
      using that i by auto
  qed (use d(2,3) i(1) upd that in auto)
  have same: "fetchCycle (instructionsList t ! m) = fetchCycle (instructionsList s ! m)"
    "decodeCycle (instructionsList t ! m) = decodeCycle (instructionsList s ! m)"
    "dispatchCycle (instructionsList t ! m) = dispatchCycle (instructionsList s ! m)"
    "issueCycle (instructionsList t ! m) = issueCycle (instructionsList s ! m)"
    "completeCycle (instructionsList t ! m) = completeCycle (instructionsList s ! m)"
    "retireCycle (instructionsList t ! m) = retireCycle (instructionsList s ! m)"
    "allocatedRs (instructionsList t ! m) = allocatedRs (instructionsList s ! m)" for m
    by (simp_all add: t execute_inst_nth)
  have chg: "executeCycle (instructionsList t ! m)
      = (if m = ?i then Some (cycle s) else executeCycle (instructionsList s ! m))" for m
    using i(1) by (simp add: t execute_inst_nth)
  have q: "fetchPtr t = fetchPtr s"
    "decodeStage t = decodeStage s"
    "dispatchStage t = dispatchStage s"
    "executeStage t = rest"
    "completeStage t = completeStage s @ [i]"
    "rob t = rob s"
    "cycle t = cycle s"
    "length (instructionsList t) = length (instructionsList s)"
    by (simp_all add: t execute_inst_proj e)
  have rl: "length (reservationStations t) = length (reservationStations s)"
    unfolding t by (cases "allocatedRs (instructionsList s ! i)") (simp_all add: execute_inst_proj)
  have rs: "rsInst (reservationStations s ! j) = Some m
      \<and> allocatedRs (instructionsList s ! i) \<noteq> Some j"
    if "j < length (reservationStations t)" "rsInst (reservationStations t ! j) = Some m" for j m
    using that unfolding t
    by (cases "allocatedRs (instructionsList s ! i)")
       (auto simp: execute_inst_proj nth_upd_gen split: if_splits)
  show ?thesis
  proof (rule phase_invI, goal_cases)
    case 1
    show ?case using d(1) by (simp add: q)
  next
    case (2 m)
    then show ?case using st [of m] by (simp add: q)
  next
    case (3 m)
    then show ?case using d(4) [of m] by (simp add: q same)
  next
    case 4
    show ?case using d(5) by (simp add: q)
  next
    case (5 m)
    then show ?case using d(6) [of m] by (simp add: q same)
  next
    case 6
    show ?case using d(7) by (simp add: q)
  next
    case (7 m)
    then show ?case using d(8) [of m] by (simp add: q same)
  next
    case (8 j m)
    then have a: "j < length (reservationStations s)" "rsInst (reservationStations s ! j) = Some m"
      "allocatedRs (instructionsList s ! i) \<noteq> Some j"
      using rs [of j m] by (simp_all add: rl)
    from d(9) [OF a(1,2)] a(3) have "m \<noteq> i" by auto
    then show ?case using d(9) [OF a(1,2)] by (simp add: q same chg)
  next
    case 9
    show ?case using d(10) by (simp add: q e)
  next
    case (10 m)
    then have "m \<in> set (executeStage s)" "m \<noteq> i" using d(10) by (auto simp: q e)
    then show ?case using d(11) [of m] by (simp add: q same chg)
  next
    case 11
    have "i \<notin> set (completeStage s)" using d(13) [of i] i by auto
    then show ?case using d(12) by (simp add: q)
  next
    case (12 m)
    show ?case
    proof (cases "m = i")
      case True
      then show ?thesis
        using i chain_unset(5) [OF d(2) [OF i(1)]] by (simp add: q same chg)
    next
      case False
      then have "m \<in> set (completeStage s)" using 12 by (simp add: q)
      then show ?thesis using d(13) [of m] by (simp add: q same chg)
    qed
  next
    case 13
    show ?case using d(14) by (simp add: q)
  next
    case (14 x)
    then show ?case using d(15) [of x] by (simp add: q same)
  qed
qed

lemma phase_inv_issue_step:
  assumes "phase_inv 4 s" and "issue_step s t"
  shows "phase_inv 4 t"
proof -
  from assms(2) obtain j i where j: "j < length (reservationStations s)"
    and r: "rsInst (reservationStations s ! j) = Some i"
    and n: "\<not> hasIssued (instructionsList s ! i)" and t: "t = issue_inst i s"
    by (auto simp: issue_step_def)
  note d = phase_invD [OF assms(1)]
  let ?i = i
  have i: "?i < length (instructionsList s)" "issueCycle (instructionsList s ! ?i) = None"
    "dispatchCycle (instructionsList s ! ?i) \<noteq> None"
    "executeCycle (instructionsList s ! ?i) = None"
    using d(9) [OF j r] n by (simp_all add: hasIssued_def)
  have upd: "stampOf Z (instructionsList t ! m)
      = (if m = ?i \<and> Z = Issue then Some (cycle s) else stampOf Z (instructionsList s ! m))" for Z m
    using i(1) by (cases Z) (simp_all add: t issue_inst_nth)
  have st: "chain (instructionsList t ! m) \<and> bounds 4 (cycle s) (instructionsList t ! m)"
    if "m < length (instructionsList s)" for m
  proof (rule step_stamps [where xs = "instructionsList s" and X = Issue and i = ?i
        and n = "length (instructionsList s)"])
    show "stampOf Issue (instructionsList s ! ?i) = None" using i by simp
    show "stampOf Y (instructionsList s ! ?i) \<noteq> None \<and> 4 < stageOrder Y"
      if "prevStage Issue = Some Y" for Y
      using that i by auto
  qed (use d(2,3) i(1) upd that in auto)
  have same: "fetchCycle (instructionsList t ! m) = fetchCycle (instructionsList s ! m)"
    "decodeCycle (instructionsList t ! m) = decodeCycle (instructionsList s ! m)"
    "dispatchCycle (instructionsList t ! m) = dispatchCycle (instructionsList s ! m)"
    "executeCycle (instructionsList t ! m) = executeCycle (instructionsList s ! m)"
    "completeCycle (instructionsList t ! m) = completeCycle (instructionsList s ! m)"
    "retireCycle (instructionsList t ! m) = retireCycle (instructionsList s ! m)"
    "allocatedRs (instructionsList t ! m) = allocatedRs (instructionsList s ! m)" for m
    by (simp_all add: t issue_inst_nth)
  have chg: "issueCycle (instructionsList t ! m)
      = (if m = ?i then Some (cycle s) else issueCycle (instructionsList s ! m))" for m
    using i(1) by (simp add: t issue_inst_nth)
  have q: "fetchPtr t = fetchPtr s"
    "decodeStage t = decodeStage s"
    "dispatchStage t = dispatchStage s"
    "executeStage t = executeStage s @ [i]"
    "completeStage t = completeStage s"
    "reservationStations t = reservationStations s"
    "rob t = rob s"
    "cycle t = cycle s"
    "length (instructionsList t) = length (instructionsList s)"
    by (simp_all add: t issue_inst_proj)
  show ?thesis
  proof (rule phase_invI, goal_cases)
    case 1
    show ?case using d(1) by (simp add: q)
  next
    case (2 m)
    then show ?case using st [of m] by (simp add: q)
  next
    case (3 m)
    then show ?case using d(4) [of m] by (simp add: q same)
  next
    case 4
    show ?case using d(5) by (simp add: q)
  next
    case (5 m)
    then show ?case using d(6) [of m] by (simp add: q same)
  next
    case 6
    show ?case using d(7) by (simp add: q)
  next
    case (7 m)
    then show ?case using d(8) [of m] by (simp add: q same)
  next
    case (8 j m)
    then show ?case using d(9) [of j m] by (simp add: q same)
  next
    case 9
    have "i \<notin> set (executeStage s)" using d(11) [of i] i by auto
    then show ?case using d(10) by (simp add: q)
  next
    case (10 m)
    show ?case
    proof (cases "m = i")
      case True
      then show ?thesis using i by (simp add: q same chg)
    next
      case False
      then have "m \<in> set (executeStage s)" using 10 by (simp add: q)
      then show ?thesis using d(11) [of m] by (simp add: q same chg)
    qed
  next
    case 11
    show ?case using d(12) by (simp add: q)
  next
    case (12 m)
    then show ?case using d(13) [of m] by (simp add: q same)
  next
    case 13
    show ?case using d(14) by (simp add: q)
  next
    case (14 x)
    then show ?case using d(15) [of x] by (simp add: q same)
  qed
qed

lemma phase_inv_dispatch_step:
  assumes "phase_inv 5 s" and "dispatch_step s t"
  shows "phase_inv 5 t"
proof -
  from assms(2) obtain i rest j where e: "dispatchStage s = i # rest"
    and t: "t = dispatch_inst i j s"
    by (auto simp: dispatch_step_def)
  note d = phase_invD [OF assms(1)]
  let ?i = i
  have i: "?i < length (instructionsList s)" "dispatchCycle (instructionsList s ! ?i) = None"
    "decodeCycle (instructionsList s ! ?i) \<noteq> None"
    using d(8) [of i] e by simp_all
  note un = chain_unset [OF d(2) [OF i(1)]]
  have upd: "stampOf Z (instructionsList t ! m)
      = (if m = ?i \<and> Z = Dispatch then Some (cycle s) else stampOf Z (instructionsList s ! m))" for Z m
    using i(1) by (cases Z) (simp_all add: t dispatch_inst_nth)
  have st: "chain (instructionsList t ! m) \<and> bounds 5 (cycle s) (instructionsList t ! m)"
    if "m < length (instructionsList s)" for m
  proof (rule step_stamps [where xs = "instructionsList s" and X = Dispatch and i = ?i
        and n = "length (instructionsList s)"])
    show "stampOf Dispatch (instructionsList s ! ?i) = None" using i by simp
    show "stampOf Y (instructionsList s ! ?i) \<noteq> None \<and> 5 < stageOrder Y"
      if "prevStage Dispatch = Some Y" for Y
      using that i by auto
  qed (use d(2,3) i(1) upd that in auto)
  have same: "fetchCycle (instructionsList t ! m) = fetchCycle (instructionsList s ! m)"
    "decodeCycle (instructionsList t ! m) = decodeCycle (instructionsList s ! m)"
    "issueCycle (instructionsList t ! m) = issueCycle (instructionsList s ! m)"
    "executeCycle (instructionsList t ! m) = executeCycle (instructionsList s ! m)"
    "completeCycle (instructionsList t ! m) = completeCycle (instructionsList s ! m)"
    "retireCycle (instructionsList t ! m) = retireCycle (instructionsList s ! m)" for m
    by (simp_all add: t dispatch_inst_nth)
  have chg: "dispatchCycle (instructionsList t ! m)
      = (if m = ?i then Some (cycle s) else dispatchCycle (instructionsList s ! m))" for m
    using i(1) by (simp add: t dispatch_inst_nth)
  have q: "fetchPtr t = fetchPtr s"
    "decodeStage t = decodeStage s"
    "dispatchStage t = rest"
    "executeStage t = executeStage s"
    "completeStage t = completeStage s"
    "reservationStations t = (reservationStations s)[j := (reservationStations s ! j)\<lparr>rsInst := Some i\<rparr>]"
    "rob t = rob s @ [\<lparr>robInst = i, robT = dispT i s, robTold = dispTold i s\<rparr>]"
    "cycle t = cycle s"
    "length (instructionsList t) = length (instructionsList s)"
    by (simp_all add: t dispatch_inst_proj e)
  have al: "allocatedRs (instructionsList t ! m)
      = (if m = i then Some j else allocatedRs (instructionsList s ! m))" for m
    using i(1) by (simp add: t dispatch_inst_nth)
  show ?thesis
  proof (rule phase_invI, goal_cases)
    case 1
    show ?case using d(1) by (simp add: q)
  next
    case (2 m)
    then show ?case using st [of m] by (simp add: q)
  next
    case (3 m)
    then show ?case using d(4) [of m] by (simp add: q same)
  next
    case 4
    show ?case using d(5) by (simp add: q)
  next
    case (5 m)
    then show ?case using d(6) [of m] by (simp add: q same)
  next
    case 6
    show ?case using d(7) by (simp add: q e)
  next
    case (7 m)
    then have "m \<in> set (dispatchStage s)" "m \<noteq> i" using d(7) by (auto simp: q e)
    then show ?case using d(8) [of m] by (simp add: q same chg)
  next
    case (8 j' m)
    show ?case
    proof (cases "j' = j")
      case True
      then have "m = i" using 8 by (simp add: q nth_upd_gen split: if_splits)
      then show ?thesis using True i un by (simp add: q same chg al)
    next
      case False
      then have a: "j' < length (reservationStations s)"
        "rsInst (reservationStations s ! j') = Some m"
        using 8 by (simp_all add: q nth_upd_gen split: if_splits)
      from d(9) [OF a] i have "m \<noteq> i" by auto
      then show ?thesis using d(9) [OF a] by (simp add: q same chg al)
    qed
  next
    case 9
    show ?case using d(10) by (simp add: q)
  next
    case (10 m)
    then show ?case using d(11) [of m] by (simp add: q same)
  next
    case 11
    show ?case using d(12) by (simp add: q)
  next
    case (12 m)
    then show ?case using d(13) [of m] by (simp add: q same)
  next
    case 13
    have "i \<notin> robInst ` set (rob s)"
    proof
      assume "i \<in> robInst ` set (rob s)"
      then obtain x where "x \<in> set (rob s)" "robInst x = i" by auto
      with d(15) [of x] i show False by auto
    qed
    then show ?case using d(14) by (simp add: q)
  next
    case (14 x)
    show ?case
    proof (cases "x \<in> set (rob s)")
      case True
      then show ?thesis using d(15) [of x] by (simp add: q same chg)
    next
      case False
      then have "robInst x = i" using 14 by (auto simp: q)
      then show ?thesis using i un by (simp add: q same chg)
    qed
  qed
qed

lemma phase_inv_decode_step:
  assumes "phase_inv 6 s" and "decode_step s t"
  shows "phase_inv 6 t"
proof -
  from assms(2) obtain i rest where e: "decodeStage s = i # rest"
    and t: "t = decode_inst i s"
    by (auto simp: decode_step_def)
  note d = phase_invD [OF assms(1)]
  let ?i = i
  have i: "?i < length (instructionsList s)" "decodeCycle (instructionsList s ! ?i) = None"
    "fetchCycle (instructionsList s ! ?i) \<noteq> None"
    using d(6) [of i] e by simp_all
  note un = chain_unset [OF d(2) [OF i(1)]]
  have upd: "stampOf Z (instructionsList t ! m)
      = (if m = ?i \<and> Z = Decode then Some (cycle s) else stampOf Z (instructionsList s ! m))" for Z m
    using i(1) by (cases Z) (simp_all add: t decode_inst_nth)
  have st: "chain (instructionsList t ! m) \<and> bounds 6 (cycle s) (instructionsList t ! m)"
    if "m < length (instructionsList s)" for m
  proof (rule step_stamps [where xs = "instructionsList s" and X = Decode and i = ?i
        and n = "length (instructionsList s)"])
    show "stampOf Decode (instructionsList s ! ?i) = None" using i by simp
    show "stampOf Y (instructionsList s ! ?i) \<noteq> None \<and> 6 < stageOrder Y"
      if "prevStage Decode = Some Y" for Y
      using that i by auto
  qed (use d(2,3) i(1) upd that in auto)
  have same: "fetchCycle (instructionsList t ! m) = fetchCycle (instructionsList s ! m)"
    "dispatchCycle (instructionsList t ! m) = dispatchCycle (instructionsList s ! m)"
    "issueCycle (instructionsList t ! m) = issueCycle (instructionsList s ! m)"
    "executeCycle (instructionsList t ! m) = executeCycle (instructionsList s ! m)"
    "completeCycle (instructionsList t ! m) = completeCycle (instructionsList s ! m)"
    "retireCycle (instructionsList t ! m) = retireCycle (instructionsList s ! m)"
    "allocatedRs (instructionsList t ! m) = allocatedRs (instructionsList s ! m)" for m
    by (simp_all add: t decode_inst_nth)
  have chg: "decodeCycle (instructionsList t ! m)
      = (if m = ?i then Some (cycle s) else decodeCycle (instructionsList s ! m))" for m
    using i(1) by (simp add: t decode_inst_nth)
  have q: "fetchPtr t = fetchPtr s"
    "decodeStage t = rest"
    "dispatchStage t = dispatchStage s @ [i]"
    "executeStage t = executeStage s"
    "completeStage t = completeStage s"
    "reservationStations t = reservationStations s"
    "rob t = rob s"
    "cycle t = cycle s"
    "length (instructionsList t) = length (instructionsList s)"
    by (simp_all add: t decode_inst_proj e)
  show ?thesis
  proof (rule phase_invI, goal_cases)
    case 1
    show ?case using d(1) by (simp add: q)
  next
    case (2 m)
    then show ?case using st [of m] by (simp add: q)
  next
    case (3 m)
    then show ?case using d(4) [of m] by (simp add: q same)
  next
    case 4
    show ?case using d(5) by (simp add: q e)
  next
    case (5 m)
    then have "m \<in> set (decodeStage s)" "m \<noteq> i" using d(5) by (auto simp: q e)
    then show ?case using d(6) [of m] by (simp add: q same chg)
  next
    case 6
    have "i \<notin> set (dispatchStage s)" using d(8) [of i] i by auto
    then show ?case using d(7) by (simp add: q)
  next
    case (7 m)
    show ?case
    proof (cases "m = i")
      case True
      then show ?thesis using i un by (simp add: q same chg)
    next
      case False
      then have "m \<in> set (dispatchStage s)" using 7 by (simp add: q)
      then show ?thesis using d(8) [of m] by (simp add: q same chg)
    qed
  next
    case (8 j m)
    then show ?case using d(9) [of j m] by (simp add: q same)
  next
    case 9
    show ?case using d(10) by (simp add: q)
  next
    case (10 m)
    then show ?case using d(11) [of m] by (simp add: q same)
  next
    case 11
    show ?case using d(12) by (simp add: q)
  next
    case (12 m)
    then show ?case using d(13) [of m] by (simp add: q same)
  next
    case 13
    show ?case using d(14) by (simp add: q)
  next
    case (14 x)
    then show ?case using d(15) [of x] by (simp add: q same)
  qed
qed

lemma phase_inv_fetch_step:
  assumes "phase_inv 7 s" and "fetch_step s t"
  shows "phase_inv 7 t"
proof -
  from assms(2) consider
    (inst) "fetchPtr s < length (instructionsList s)" "t = fetch_inst s"
    | (flag) "t = s\<lparr>isFetching := False\<rparr>"
    by (auto simp: fetch_step_def)
  then show ?thesis
  proof cases
    case flag
    with assms(1) show ?thesis by (simp add: phase_inv_def)
  next
    case inst
  note t = inst(2)
  note d = phase_invD [OF assms(1)]
  let ?i = "fetchPtr s"
  have i: "?i < length (instructionsList s)" "fetchCycle (instructionsList s ! ?i) = None"
    using d(4) [of ?i] inst(1) by simp_all
  note un = chain_unset [OF d(2) [OF i(1)]]
  have upd: "stampOf Z (instructionsList t ! m)
      = (if m = ?i \<and> Z = Fetch then Some (cycle s) else stampOf Z (instructionsList s ! m))" for Z m
    using i(1) by (cases Z) (simp_all add: t fetch_inst_nth)
  have st: "chain (instructionsList t ! m) \<and> bounds 7 (cycle s) (instructionsList t ! m)"
    if "m < length (instructionsList s)" for m
  proof (rule step_stamps [where xs = "instructionsList s" and X = Fetch and i = ?i
        and n = "length (instructionsList s)"])
    show "stampOf Fetch (instructionsList s ! ?i) = None" using i by simp
    show "stampOf Y (instructionsList s ! ?i) \<noteq> None \<and> 7 < stageOrder Y"
      if "prevStage Fetch = Some Y" for Y
      using that by simp
  qed (use d(2,3) i(1) upd that in auto)
  have same: "decodeCycle (instructionsList t ! m) = decodeCycle (instructionsList s ! m)"
    "dispatchCycle (instructionsList t ! m) = dispatchCycle (instructionsList s ! m)"
    "issueCycle (instructionsList t ! m) = issueCycle (instructionsList s ! m)"
    "executeCycle (instructionsList t ! m) = executeCycle (instructionsList s ! m)"
    "completeCycle (instructionsList t ! m) = completeCycle (instructionsList s ! m)"
    "retireCycle (instructionsList t ! m) = retireCycle (instructionsList s ! m)"
    "allocatedRs (instructionsList t ! m) = allocatedRs (instructionsList s ! m)" for m
    by (simp_all add: t fetch_inst_nth)
  have chg: "fetchCycle (instructionsList t ! m)
      = (if m = ?i then Some (cycle s) else fetchCycle (instructionsList s ! m))" for m
    using i(1) by (simp add: t fetch_inst_nth)
  have q: "fetchPtr t = fetchPtr s + 1"
    "decodeStage t = decodeStage s @ [fetchPtr s]"
    "dispatchStage t = dispatchStage s"
    "executeStage t = executeStage s"
    "completeStage t = completeStage s"
    "reservationStations t = reservationStations s"
    "rob t = rob s"
    "cycle t = cycle s"
    "length (instructionsList t) = length (instructionsList s)"
    by (simp_all add: t fetch_inst_proj)
  show ?thesis
  proof (rule phase_invI, goal_cases)
    case 1
    show ?case using i(1) by (simp add: q)
  next
    case (2 m)
    then show ?case using st [of m] by (simp add: q)
  next
    case (3 m)
    then show ?case using d(4) [of m] by (simp add: q same chg)
  next
    case 4
    have "fetchPtr s \<notin> set (decodeStage s)" using d(6) [of "fetchPtr s"] i by auto
    then show ?case using d(5) by (simp add: q)
  next
    case (5 m)
    show ?case
    proof (cases "m = fetchPtr s")
      case True
      then show ?thesis using i un by (simp add: q same chg)
    next
      case False
      then have "m \<in> set (decodeStage s)" using 5 by (simp add: q)
      then show ?thesis using d(6) [of m] by (simp add: q same chg)
    qed
  next
    case 6
    show ?case using d(7) by (simp add: q)
  next
    case (7 m)
    then show ?case using d(8) [of m] by (simp add: q same)
  next
    case (8 j m)
    then show ?case using d(9) [of j m] by (simp add: q same)
  next
    case 9
    show ?case using d(10) by (simp add: q)
  next
    case (10 m)
    then show ?case using d(11) [of m] by (simp add: q same)
  next
    case 11
    show ?case using d(12) by (simp add: q)
  next
    case (12 m)
    then show ?case using d(13) [of m] by (simp add: q same)
  next
    case 13
    show ?case using d(14) by (simp add: q)
  next
    case (14 x)
    then show ?case using d(15) [of x] by (simp add: q same)
  qed
  qed
qed

subsection \<open>Stages and cycles\<close>

lemma under_mono: "under a m \<Longrightarrow> m \<le> m' \<Longrightarrow> under a m'"
  by (cases a) (simp_all add: under_def)

lemma bnd_next: "bnd k X c \<le> bnd (Suc k) X c"
  by (simp add: bnd_def)

lemma bounds_next: "bounds k c x \<Longrightarrow> bounds (Suc k) c x"
  unfolding bounds_def by (blast intro: under_mono bnd_next)

lemma phase_inv_next: "phase_inv k s \<Longrightarrow> phase_inv (Suc k) s"
  unfolding phase_inv_def using bounds_next by blast

lemma phase_inv_admit: "phase_inv k s \<Longrightarrow> phase_inv k (admitFreed s)"
  by (simp add: phase_inv_def admitFreed_def)

lemma phase_inv_flag: "phase_inv k s \<Longrightarrow> phase_inv k (s\<lparr>hasProgress := b\<rparr>)"
  by (simp add: phase_inv_def)

lemma bounds_cycle: "bounds 7 c x \<Longrightarrow> bounds 0 (Suc c) x"
  unfolding bounds_def under_def bnd_def by (auto split: option.splits)

lemma phase_inv_cycle: "phase_inv 7 s \<Longrightarrow> phase_inv 0 (s\<lparr>cycle := cycle s + 1\<rparr>)"
  unfolding phase_inv_def using bounds_cycle by simp

text \<open>After the first \<open>k\<close> stages of a cycle the invariant of phase \<open>k\<close> holds.\<close>

lemmas phase_inv_steps = phase_inv_retire_step phase_inv_complete_step phase_inv_execute_step
  phase_inv_issue_step phase_inv_dispatch_step phase_inv_decode_step phase_inv_fetch_step

lemma phase_inv_prefix:
  assumes "phase_inv 0 s" and "k \<le> 7"
  shows "phase_inv k (tickPrefix k s)"
  using assms
  by (rule phased_prefix [where P = phase_inv])
     (fact phase_inv_next phase_inv_admit phase_inv_steps)+

lemma phase_inv_cycle_step: "phase_inv 0 s \<Longrightarrow> phase_inv 0 (cycle_step s)"
  unfolding cycle_step_def Let_def tick_tickPrefix
  by (intro phase_inv_cycle phase_inv_prefix phase_inv_flag) simp_all

lemma phase_inv_run: "phase_inv 0 s \<Longrightarrow> phase_inv 0 (runCycles n s)"
  by (induction n arbitrary: s) (simp_all add: phase_inv_cycle_step)

lemma phase_inv_initial: "phase_inv 0 (initial pol prog nA nP nR w)"
proof -
  have f: "i < length (instructionsList (initial pol prog nA nP nR w)) \<Longrightarrow>
      fetchCycle (instructionsList (initial pol prog nA nP nR w) ! i) = None
      \<and> decodeCycle (instructionsList (initial pol prog nA nP nR w) ! i) = None
      \<and> dispatchCycle (instructionsList (initial pol prog nA nP nR w) ! i) = None
      \<and> issueCycle (instructionsList (initial pol prog nA nP nR w) ! i) = None
      \<and> executeCycle (instructionsList (initial pol prog nA nP nR w) ! i) = None
      \<and> completeCycle (instructionsList (initial pol prog nA nP nR w) ! i) = None
      \<and> retireCycle (instructionsList (initial pol prog nA nP nR w) ! i) = None" for i
    using initial_fresh [of pol prog nA nP nR w]
    by (simp add: list_all_length Ball_set [symmetric] del: Ball_set)
  show ?thesis
    unfolding phase_inv_def
    using f
    by (simp add: initial_proj new_ReservationStation_def nth_Cons chain_def bounds_def
        before_def under_def split: nat.splits)
qed

lemma phase_inv_reach: "phase_inv 0 (runCycles n (initial pol prog nA nP nR w))"
  by (rule phase_inv_run) (rule phase_inv_initial)

lemma phase_inv_stage:
  "k \<le> 7 \<Longrightarrow>
   phase_inv k (tickPrefix k ((runCycles n (initial pol prog nA nP nR w))\<lparr>hasProgress := False\<rparr>))"
  by (intro phase_inv_prefix phase_inv_flag phase_inv_reach)

section \<open>Every stamp is set once\<close>

text \<open>
  The effect of a step on the stamps and on the trace: it stamps one instruction for one
  stage with the current cycle, the stamp not having been set, and appends the event to the
  trace; or it touches neither the instructions nor the trace.
\<close>

definition stamps_at :: "stage \<Rightarrow> nat \<Rightarrow> CPU \<Rightarrow> CPU \<Rightarrow> bool" where
  "stamps_at X i s t =
     (i < length (instructionsList s) \<and> stampOf X (instructionsList s ! i) = None
      \<and> length (instructionsList t) = length (instructionsList s)
      \<and> traceLog t = traceLog s @ [(cycle s, X, i)]
      \<and> (\<forall>Z m. stampOf Z (instructionsList t ! m)
             = (if m = i \<and> Z = X then Some (cycle s) else stampOf Z (instructionsList s ! m))))"

definition quiet :: "CPU \<Rightarrow> CPU \<Rightarrow> bool" where
  "quiet s t = (instructionsList t = instructionsList s \<and> traceLog t = traceLog s)"

lemma retire_effect:
  assumes "phase_inv 1 s" and "retire_step s t"
  shows "\<exists>i. stamps_at Retire i s t"
proof -
  from assms(2) obtain e rest where r: "rob s = e # rest" and t: "t = retire_inst e s"
    by (auto simp: retire_step_def)
  have i: "robInst e < length (instructionsList s)"
    "retireCycle (instructionsList s ! robInst e) = None"
    using phase_invD(15) [OF assms(1), of e] r by simp_all
  have "stampOf Z (instructionsList t ! m)
      = (if m = robInst e \<and> Z = Retire then Some (cycle s)
         else stampOf Z (instructionsList s ! m))" for Z m
    using i(1) by (cases Z) (simp_all add: t retire_inst_nth)
  then have "stamps_at Retire (robInst e) s t"
    using i by (simp add: stamps_at_def t retire_inst_proj)
  then show ?thesis ..
qed

lemma complete_effect:
  assumes "phase_inv 2 s" and "complete_step s t"
  shows "(\<exists>i. stamps_at Complete i s t) \<or> quiet s t"
proof -
  from assms(2) consider
    (inst) j where "j < length (completeStage s)" "t = complete_inst j s"
    | (flag) "t = s\<lparr>hasProgress := True\<rparr>"
    by (auto simp: complete_step_def)
  then show ?thesis
  proof cases
    case flag
    then show ?thesis by (simp add: quiet_def)
  next
    case inst
    let ?i = "completeStage s ! j"
    have i: "?i < length (instructionsList s)" "completeCycle (instructionsList s ! ?i) = None"
      using phase_invD(13) [OF assms(1), of ?i] inst(1) by simp_all
    have "stampOf Z (instructionsList t ! m)
        = (if m = ?i \<and> Z = Complete then Some (cycle s)
           else stampOf Z (instructionsList s ! m))" for Z m
      using i(1) by (cases Z) (simp_all add: inst(2) complete_inst_nth)
    then have "stamps_at Complete ?i s t"
      using i by (simp add: stamps_at_def inst(2) complete_inst_proj)
    then show ?thesis by blast
  qed
qed

lemma execute_effect:
  assumes "phase_inv 3 s" and "execute_step s t"
  shows "\<exists>i. stamps_at Execute i s t"
proof -
  from assms(2) obtain i rest where e: "executeStage s = i # rest" and t: "t = execute_inst i s"
    by (auto simp: execute_step_def)
  have i: "i < length (instructionsList s)" "executeCycle (instructionsList s ! i) = None"
    using phase_invD(11) [OF assms(1), of i] e by simp_all
  have "stampOf Z (instructionsList t ! m)
      = (if m = i \<and> Z = Execute then Some (cycle s)
         else stampOf Z (instructionsList s ! m))" for Z m
    using i(1) by (cases Z) (simp_all add: t execute_inst_nth)
  then have "stamps_at Execute i s t"
    using i by (simp add: stamps_at_def t execute_inst_proj)
  then show ?thesis ..
qed

lemma issue_effect:
  assumes "phase_inv 4 s" and "issue_step s t"
  shows "\<exists>i. stamps_at Issue i s t"
proof -
  from assms(2) obtain j i where j: "j < length (reservationStations s)"
    and r: "rsInst (reservationStations s ! j) = Some i"
    and n: "\<not> hasIssued (instructionsList s ! i)" and t: "t = issue_inst i s"
    by (auto simp: issue_step_def)
  have i: "i < length (instructionsList s)" "issueCycle (instructionsList s ! i) = None"
    using phase_invD(9) [OF assms(1) j r] n by (simp_all add: hasIssued_def)
  have "stampOf Z (instructionsList t ! m)
      = (if m = i \<and> Z = Issue then Some (cycle s)
         else stampOf Z (instructionsList s ! m))" for Z m
    using i(1) by (cases Z) (simp_all add: t issue_inst_nth)
  then have "stamps_at Issue i s t"
    using i by (simp add: stamps_at_def t issue_inst_proj)
  then show ?thesis ..
qed

lemma dispatch_effect:
  assumes "phase_inv 5 s" and "dispatch_step s t"
  shows "\<exists>i. stamps_at Dispatch i s t"
proof -
  from assms(2) obtain i rest j where e: "dispatchStage s = i # rest"
    and t: "t = dispatch_inst i j s"
    by (auto simp: dispatch_step_def)
  have i: "i < length (instructionsList s)" "dispatchCycle (instructionsList s ! i) = None"
    using phase_invD(8) [OF assms(1), of i] e by simp_all
  have "stampOf Z (instructionsList t ! m)
      = (if m = i \<and> Z = Dispatch then Some (cycle s)
         else stampOf Z (instructionsList s ! m))" for Z m
    using i(1) by (cases Z) (simp_all add: t dispatch_inst_nth)
  then have "stamps_at Dispatch i s t"
    using i by (simp add: stamps_at_def t dispatch_inst_proj)
  then show ?thesis ..
qed

lemma decode_effect:
  assumes "phase_inv 6 s" and "decode_step s t"
  shows "\<exists>i. stamps_at Decode i s t"
proof -
  from assms(2) obtain i rest where e: "decodeStage s = i # rest" and t: "t = decode_inst i s"
    by (auto simp: decode_step_def)
  have i: "i < length (instructionsList s)" "decodeCycle (instructionsList s ! i) = None"
    using phase_invD(6) [OF assms(1), of i] e by simp_all
  have "stampOf Z (instructionsList t ! m)
      = (if m = i \<and> Z = Decode then Some (cycle s)
         else stampOf Z (instructionsList s ! m))" for Z m
    using i(1) by (cases Z) (simp_all add: t decode_inst_nth)
  then have "stamps_at Decode i s t"
    using i by (simp add: stamps_at_def t decode_inst_proj)
  then show ?thesis ..
qed

lemma fetch_effect:
  assumes "phase_inv 7 s" and "fetch_step s t"
  shows "(\<exists>i. stamps_at Fetch i s t) \<or> quiet s t"
proof -
  from assms(2) consider
    (inst) "fetchPtr s < length (instructionsList s)" "t = fetch_inst s"
    | (flag) "t = s\<lparr>isFetching := False\<rparr>"
    by (auto simp: fetch_step_def)
  then show ?thesis
  proof cases
    case flag
    then show ?thesis by (simp add: quiet_def)
  next
    case inst
    let ?i = "fetchPtr s"
    have i: "?i < length (instructionsList s)" "fetchCycle (instructionsList s ! ?i) = None"
      using phase_invD(4) [OF assms(1), of ?i] inst(1) by simp_all
    have "stampOf Z (instructionsList t ! m)
        = (if m = ?i \<and> Z = Fetch then Some (cycle s)
           else stampOf Z (instructionsList s ! m))" for Z m
      using i(1) by (cases Z) (simp_all add: inst(2) fetch_inst_nth)
    then have "stamps_at Fetch ?i s t"
      using i by (simp add: stamps_at_def inst(2) fetch_inst_proj)
    then show ?thesis by blast
  qed
qed

text \<open>
  The trace and the stamps agree: the trace has an event (cycle, stage, instruction)
  exactly when the instruction carries that cycle as its stamp of that stage, and no two
  events are for the same stage and instruction.
\<close>

definition trace_inv :: "CPU \<Rightarrow> bool" where
  "trace_inv s =
     (distinct (map snd (traceLog s))
      \<and> (\<forall>c X i. (c, X, i) \<in> set (traceLog s)
            \<longleftrightarrow> i < length (instructionsList s) \<and> stampOf X (instructionsList s ! i) = Some c))"

lemma trace_inv_stamps_at:
  assumes "trace_inv s" and "stamps_at X i s t"
  shows "trace_inv t"
proof -
  from assms(1) have d: "distinct (map snd (traceLog s))"
    and e: "\<And>c Z m. (c, Z, m) \<in> set (traceLog s)
            \<longleftrightarrow> m < length (instructionsList s) \<and> stampOf Z (instructionsList s ! m) = Some c"
    unfolding trace_inv_def by blast+
  from assms(2) have i: "i < length (instructionsList s)"
    and n: "stampOf X (instructionsList s ! i) = None"
    and l: "length (instructionsList t) = length (instructionsList s)"
    and tr: "traceLog t = traceLog s @ [(cycle s, X, i)]"
    and u: "\<And>Z m. stampOf Z (instructionsList t ! m)
             = (if m = i \<and> Z = X then Some (cycle s) else stampOf Z (instructionsList s ! m))"
    unfolding stamps_at_def by blast+
  have "(X, i) \<notin> snd ` set (traceLog s)"
  proof
    assume "(X, i) \<in> snd ` set (traceLog s)"
    then obtain c where "(c, X, i) \<in> set (traceLog s)" by force
    then show False using e [of c X i] n by simp
  qed
  then have 1: "distinct (map snd (traceLog t))" using d by (simp add: tr)
  have 2: "(c, Z, m) \<in> set (traceLog t)
            \<longleftrightarrow> m < length (instructionsList t) \<and> stampOf Z (instructionsList t ! m) = Some c"
    for c Z m
    using e [of c Z m] i n by (auto simp: tr l u)
  show ?thesis unfolding trace_inv_def using 1 2 by blast
qed

lemma trace_inv_quiet: "trace_inv s \<Longrightarrow> quiet s t \<Longrightarrow> trace_inv t"
  by (simp add: trace_inv_def quiet_def)

definition track_inv :: "nat \<Rightarrow> CPU \<Rightarrow> bool" where
  "track_inv k s = (phase_inv k s \<and> trace_inv s)"

lemma track_inv_run:
  assumes "track_inv 0 s"
  shows "track_inv 0 (runCycles n s)"
  using assms
proof (rule phased_run [where P = track_inv])
  show "track_inv 0 a \<Longrightarrow> track_inv 0 (a\<lparr>hasProgress := False\<rparr>)" for a
    using phase_inv_flag [of 0 a False] by (simp add: track_inv_def trace_inv_def)
  show "track_inv 7 a \<Longrightarrow> track_inv 0 (a\<lparr>cycle := cycle a + 1\<rparr>)" for a
    using phase_inv_cycle [of a] by (simp add: track_inv_def trace_inv_def)
  show "track_inv k a \<Longrightarrow> track_inv (Suc k) a" for k a
    by (simp add: track_inv_def phase_inv_next)
  show "track_inv 0 a \<Longrightarrow> track_inv 0 (admitFreed a)" for a
    using phase_inv_admit [of 0 a] by (simp add: track_inv_def trace_inv_def admitFreed_def)
  show "track_inv 1 a \<Longrightarrow> retire_step a b \<Longrightarrow> track_inv 1 b" for a b
    unfolding track_inv_def
    using phase_inv_retire_step retire_effect trace_inv_stamps_at by blast
  show "track_inv 2 a \<Longrightarrow> complete_step a b \<Longrightarrow> track_inv 2 b" for a b
    unfolding track_inv_def
    using phase_inv_complete_step complete_effect trace_inv_stamps_at trace_inv_quiet by blast
  show "track_inv 3 a \<Longrightarrow> execute_step a b \<Longrightarrow> track_inv 3 b" for a b
    unfolding track_inv_def
    using phase_inv_execute_step execute_effect trace_inv_stamps_at by blast
  show "track_inv 4 a \<Longrightarrow> issue_step a b \<Longrightarrow> track_inv 4 b" for a b
    unfolding track_inv_def
    using phase_inv_issue_step issue_effect trace_inv_stamps_at by blast
  show "track_inv 5 a \<Longrightarrow> dispatch_step a b \<Longrightarrow> track_inv 5 b" for a b
    unfolding track_inv_def
    using phase_inv_dispatch_step dispatch_effect trace_inv_stamps_at by blast
  show "track_inv 6 a \<Longrightarrow> decode_step a b \<Longrightarrow> track_inv 6 b" for a b
    unfolding track_inv_def
    using phase_inv_decode_step decode_effect trace_inv_stamps_at by blast
  show "track_inv 7 a \<Longrightarrow> fetch_step a b \<Longrightarrow> track_inv 7 b" for a b
    unfolding track_inv_def
    using phase_inv_fetch_step fetch_effect trace_inv_stamps_at trace_inv_quiet by blast
qed

lemma trace_inv_initial: "trace_inv (initial pol prog nA nP nR w)"
proof -
  have "i < length (instructionsList (initial pol prog nA nP nR w)) \<Longrightarrow>
      stampOf X (instructionsList (initial pol prog nA nP nR w) ! i) = None" for i X
    using initial_fresh [of pol prog nA nP nR w]
    by (cases X) (simp_all add: list_all_length Ball_set [symmetric] del: Ball_set)
  then show ?thesis
    by (auto simp: trace_inv_def initial_proj)
qed

lemma track_inv_reach: "track_inv 0 (runCycles n (initial pol prog nA nP nR w))"
  by (rule track_inv_run) (simp add: track_inv_def phase_inv_initial trace_inv_initial)

text \<open>The trace only grows.\<close>

definition extends :: "CPU \<Rightarrow> CPU \<Rightarrow> bool" where
  "extends s t = (\<exists>evs. traceLog t = traceLog s @ evs)"

lemma extends_run: "extends s (runCycles n s)"
proof (rule runCycles_preserve [where P = "extends s"])
  show "extends s s" by (simp add: extends_def)
  show "extends s a \<Longrightarrow> extends s (a\<lparr>hasProgress := False\<rparr>)" for a by (simp add: extends_def)
  show "extends s a \<Longrightarrow> extends s (a\<lparr>cycle := cycle a + 1\<rparr>)" for a by (simp add: extends_def)
  show "extends s a \<Longrightarrow> extends s (admitFreed a)" for a by (simp add: extends_def admitFreed_def)
  show "extends s a \<Longrightarrow> retire_step a b \<Longrightarrow> extends s b" for a b
    by (auto simp: extends_def retire_step_def retire_inst_proj)
  show "extends s a \<Longrightarrow> complete_step a b \<Longrightarrow> extends s b" for a b
    by (auto simp: extends_def complete_step_def complete_inst_proj)
  show "extends s a \<Longrightarrow> execute_step a b \<Longrightarrow> extends s b" for a b
    by (auto simp: extends_def execute_step_def execute_inst_proj)
  show "extends s a \<Longrightarrow> issue_step a b \<Longrightarrow> extends s b" for a b
    by (auto simp: extends_def issue_step_def issue_inst_proj)
  show "extends s a \<Longrightarrow> dispatch_step a b \<Longrightarrow> extends s b" for a b
    by (auto simp: extends_def dispatch_step_def dispatch_inst_proj)
  show "extends s a \<Longrightarrow> decode_step a b \<Longrightarrow> extends s b" for a b
    by (auto simp: extends_def decode_step_def decode_inst_proj)
  show "extends s a \<Longrightarrow> fetch_step a b \<Longrightarrow> extends s b" for a b
    by (auto simp: extends_def fetch_step_def fetch_inst_proj)
qed

lemma before_iff: "before a b \<longleftrightarrow> (\<forall>t. b = Some t \<longrightarrow> (\<exists>u. a = Some u \<and> u < t))"
  by (cases a; cases b) (simp_all add: before_def)

lemma bounds_0:
  assumes "bounds 0 c x" and "stampOf X x = Some t"
  shows "t < c"
  using assms by (cases X) (simp_all add: bounds_def under_def bnd_def)

text \<open>
  C2. In a run from the initial state, every stamp of an instruction that is set is smaller
  than the current cycle; if the stamp of a stage is set, the stamp of the stage before is
  set and strictly smaller (fetch, decode, dispatch, issue, execute, complete, retire). The
  trace has one event for every stamp that is set, and no two events for the same stage and
  instruction: no stamp is set twice. The trace only grows, so a stamp that is set keeps its
  value for the rest of the run.
\<close>

theorem stamps_ordered_and_set_once:
  "(\<forall>i < length (instructionsList (runCycles n (initial pol prog nA nP nR w))).
      (\<forall>t. decodeCycle (instructionsList (runCycles n (initial pol prog nA nP nR w)) ! i) = Some t \<longrightarrow>
         (\<exists>u. fetchCycle (instructionsList (runCycles n (initial pol prog nA nP nR w)) ! i) = Some u
              \<and> u < t))
      \<and> (\<forall>t. dispatchCycle (instructionsList (runCycles n (initial pol prog nA nP nR w)) ! i) = Some t \<longrightarrow>
         (\<exists>u. decodeCycle (instructionsList (runCycles n (initial pol prog nA nP nR w)) ! i) = Some u
              \<and> u < t))
      \<and> (\<forall>t. issueCycle (instructionsList (runCycles n (initial pol prog nA nP nR w)) ! i) = Some t \<longrightarrow>
         (\<exists>u. dispatchCycle (instructionsList (runCycles n (initial pol prog nA nP nR w)) ! i) = Some u
              \<and> u < t))
      \<and> (\<forall>t. executeCycle (instructionsList (runCycles n (initial pol prog nA nP nR w)) ! i) = Some t \<longrightarrow>
         (\<exists>u. issueCycle (instructionsList (runCycles n (initial pol prog nA nP nR w)) ! i) = Some u
              \<and> u < t))
      \<and> (\<forall>t. completeCycle (instructionsList (runCycles n (initial pol prog nA nP nR w)) ! i) = Some t \<longrightarrow>
         (\<exists>u. executeCycle (instructionsList (runCycles n (initial pol prog nA nP nR w)) ! i) = Some u
              \<and> u < t))
      \<and> (\<forall>t. retireCycle (instructionsList (runCycles n (initial pol prog nA nP nR w)) ! i) = Some t \<longrightarrow>
         (\<exists>u. completeCycle (instructionsList (runCycles n (initial pol prog nA nP nR w)) ! i) = Some u
              \<and> u < t))
      \<and> (\<forall>X t. stampOf X (instructionsList (runCycles n (initial pol prog nA nP nR w)) ! i) = Some t \<longrightarrow>
            t < cycle (runCycles n (initial pol prog nA nP nR w))))
   \<and> distinct (map snd (traceLog (runCycles n (initial pol prog nA nP nR w))))
   \<and> (\<forall>c X i. (c, X, i) \<in> set (traceLog (runCycles n (initial pol prog nA nP nR w)))
         \<longleftrightarrow> i < length (instructionsList (runCycles n (initial pol prog nA nP nR w)))
             \<and> stampOf X (instructionsList (runCycles n (initial pol prog nA nP nR w)) ! i) = Some c)
   \<and> (\<forall>m. \<exists>evs. traceLog (runCycles (n + m) (initial pol prog nA nP nR w))
                  = traceLog (runCycles n (initial pol prog nA nP nR w)) @ evs)"
proof -
  let ?s = "runCycles n (initial pol prog nA nP nR w)"
  have inv: "phase_inv 0 ?s" and tr: "trace_inv ?s"
    using track_inv_reach [of n pol prog nA nP nR w] by (simp_all add: track_inv_def)
  have ch: "chain (instructionsList ?s ! i)" and bd: "bounds 0 (cycle ?s) (instructionsList ?s ! i)"
    if "i < length (instructionsList ?s)" for i
    using phase_invD(2,3) [OF inv that] by simp_all
  have 1: "\<forall>i < length (instructionsList ?s).
      (\<forall>t. decodeCycle (instructionsList ?s ! i) = Some t \<longrightarrow>
         (\<exists>u. fetchCycle (instructionsList ?s ! i) = Some u \<and> u < t))
      \<and> (\<forall>t. dispatchCycle (instructionsList ?s ! i) = Some t \<longrightarrow>
         (\<exists>u. decodeCycle (instructionsList ?s ! i) = Some u \<and> u < t))
      \<and> (\<forall>t. issueCycle (instructionsList ?s ! i) = Some t \<longrightarrow>
         (\<exists>u. dispatchCycle (instructionsList ?s ! i) = Some u \<and> u < t))
      \<and> (\<forall>t. executeCycle (instructionsList ?s ! i) = Some t \<longrightarrow>
         (\<exists>u. issueCycle (instructionsList ?s ! i) = Some u \<and> u < t))
      \<and> (\<forall>t. completeCycle (instructionsList ?s ! i) = Some t \<longrightarrow>
         (\<exists>u. executeCycle (instructionsList ?s ! i) = Some u \<and> u < t))
      \<and> (\<forall>t. retireCycle (instructionsList ?s ! i) = Some t \<longrightarrow>
         (\<exists>u. completeCycle (instructionsList ?s ! i) = Some u \<and> u < t))
      \<and> (\<forall>X t. stampOf X (instructionsList ?s ! i) = Some t \<longrightarrow> t < cycle ?s)"
  proof (intro allI impI)
    fix i assume i: "i < length (instructionsList ?s)"
    show "(\<forall>t. decodeCycle (instructionsList ?s ! i) = Some t \<longrightarrow>
         (\<exists>u. fetchCycle (instructionsList ?s ! i) = Some u \<and> u < t))
      \<and> (\<forall>t. dispatchCycle (instructionsList ?s ! i) = Some t \<longrightarrow>
         (\<exists>u. decodeCycle (instructionsList ?s ! i) = Some u \<and> u < t))
      \<and> (\<forall>t. issueCycle (instructionsList ?s ! i) = Some t \<longrightarrow>
         (\<exists>u. dispatchCycle (instructionsList ?s ! i) = Some u \<and> u < t))
      \<and> (\<forall>t. executeCycle (instructionsList ?s ! i) = Some t \<longrightarrow>
         (\<exists>u. issueCycle (instructionsList ?s ! i) = Some u \<and> u < t))
      \<and> (\<forall>t. completeCycle (instructionsList ?s ! i) = Some t \<longrightarrow>
         (\<exists>u. executeCycle (instructionsList ?s ! i) = Some u \<and> u < t))
      \<and> (\<forall>t. retireCycle (instructionsList ?s ! i) = Some t \<longrightarrow>
         (\<exists>u. completeCycle (instructionsList ?s ! i) = Some u \<and> u < t))
      \<and> (\<forall>X t. stampOf X (instructionsList ?s ! i) = Some t \<longrightarrow> t < cycle ?s)"
      using ch [OF i] bounds_0 [OF bd [OF i]]
      unfolding chain_def before_iff by blast
  qed
  have 2: "distinct (map snd (traceLog ?s))"
    and 3: "\<forall>c X i. (c, X, i) \<in> set (traceLog ?s)
         \<longleftrightarrow> i < length (instructionsList ?s) \<and> stampOf X (instructionsList ?s ! i) = Some c"
    using tr unfolding trace_inv_def by blast+
  have 4: "\<forall>m. \<exists>evs. traceLog (runCycles (n + m) (initial pol prog nA nP nR w)) = traceLog ?s @ evs"
    using extends_run [of ?s] by (simp add: extends_def runCycles_add)
  show ?thesis using 1 2 3 4 by blast
qed

theorem stamps_ordered_and_set_once_witness:
  "1 < length (instructionsList (runCycles 11 (initial RefuseWhenFull
       [(RSType_LOAD, 0, - 1, 1), (RSType_ALU, 1, 0, 2), (RSType_ALU, 0, 0, 3)] 4 8 8 1)))
   \<and> map (\<lambda>X. stampOf X (instructionsList (runCycles 11 (initial RefuseWhenFull
         [(RSType_LOAD, 0, - 1, 1), (RSType_ALU, 1, 0, 2), (RSType_ALU, 0, 0, 3)] 4 8 8 1)) ! 1))
       [Fetch, Decode, Dispatch, Issue, Execute, Complete, Retire]
     = [Some 1, Some 2, Some 3, Some 6, Some 7, Some 8, Some 9]
   \<and> cycle (runCycles 11 (initial RefuseWhenFull
       [(RSType_LOAD, 0, - 1, 1), (RSType_ALU, 1, 0, 2), (RSType_ALU, 0, 0, 3)] 4 8 8 1)) = 11
   \<and> (\<exists>u. issueCycle (instructionsList (runCycles 11 (initial RefuseWhenFull
         [(RSType_LOAD, 0, - 1, 1), (RSType_ALU, 1, 0, 2), (RSType_ALU, 0, 0, 3)] 4 8 8 1)) ! 1)
           = Some u \<and> u < 7)
   \<and> (6, Issue, 1) \<in> set (traceLog (runCycles 11 (initial RefuseWhenFull
       [(RSType_LOAD, 0, - 1, 1), (RSType_ALU, 1, 0, 2), (RSType_ALU, 0, 0, 3)] 4 8 8 1)))
   \<and> distinct (map snd (traceLog (runCycles 11 (initial RefuseWhenFull
       [(RSType_LOAD, 0, - 1, 1), (RSType_ALU, 1, 0, 2), (RSType_ALU, 0, 0, 3)] 4 8 8 1))))"
proof -
  let ?p = "[(RSType_LOAD, 0, - 1, 1), (RSType_ALU, 1, 0, 2), (RSType_ALU, 0, 0, 3)]"
  let ?s = "runCycles 11 (initial RefuseWhenFull ?p 4 8 8 1)"
  have l: "1 < length (instructionsList ?s)" by code_simp
  have st: "map (\<lambda>X. stampOf X (instructionsList ?s ! 1))
       [Fetch, Decode, Dispatch, Issue, Execute, Complete, Retire]
     = [Some 1, Some 2, Some 3, Some 6, Some 7, Some 8, Some 9]" by code_simp
  have c: "cycle ?s = 11" by code_simp
  have ex: "executeCycle (instructionsList ?s ! 1) = Some 7" using st by simp
  have iss: "stampOf Issue (instructionsList ?s ! 1) = Some 6" using st by simp
  note th = stamps_ordered_and_set_once [of 11 RefuseWhenFull ?p 4 8 8 1]
  from th l ex have a: "\<exists>u. issueCycle (instructionsList ?s ! 1) = Some u \<and> u < 7"
    by blast
  from th l iss have b: "(6, Issue, 1) \<in> set (traceLog ?s)"
    by blast
  from th have d: "distinct (map snd (traceLog ?s))"
    by blast
  show ?thesis using l st c a b d by simp
qed

section \<open>Latency and the complete scan\<close>




text \<open>The state in which the complete stage of the next cycle runs.\<close>

definition beforeComplete :: "CPU \<Rightarrow> CPU" where
  "beforeComplete s = retire (admitFreed (s\<lparr>hasProgress := False\<rparr>))"







text \<open>
  The bound on the queue is what makes the scan complete. A pass that erases entry \<open>j\<close>
  goes on with entry \<open>j + 1\<close> of the shortened queue, so it skips the entry that followed
  the erased one; the skipped entry is found by a later pass, of which there are \<open>width\<close>.
  Were the complete queue to accept a push at any length, the passes would not suffice:
  with width 1 and the program LOAD, ALU the queue of cycle 6 would hold both instructions,
  both at their deadline, and the single pass would leave the second one in the queue.
\<close>

lemma scan_needs_bounded_queue:
  "completeStage (beforeComplete (runCycles 6 (initial AlwaysAccept
       [(RSType_LOAD, 0, - 1, 1), (RSType_ALU, 0, 0, 2)] 4 8 8 1))) = [0, 1]
   \<and> deadlineReached 6 (instructionsList (beforeComplete (runCycles 6 (initial AlwaysAccept
       [(RSType_LOAD, 0, - 1, 1), (RSType_ALU, 0, 0, 2)] 4 8 8 1))) ! 0)
   \<and> deadlineReached 6 (instructionsList (beforeComplete (runCycles 6 (initial AlwaysAccept
       [(RSType_LOAD, 0, - 1, 1), (RSType_ALU, 0, 0, 2)] 4 8 8 1))) ! 1)
   \<and> completeStage (complete (beforeComplete (runCycles 6 (initial AlwaysAccept
       [(RSType_LOAD, 0, - 1, 1), (RSType_ALU, 0, 0, 2)] 4 8 8 1)))) = [1]"
  by code_simp

section \<open>Map-table lookups of dispatch\<close>

definition noSourceState :: CPU where
  "noSourceState = issue (execute (complete (retire (admitFreed
     ((runCycles 2 (loadProgram [(RSType_LOAD, - 1, - 1, 1)] (new_CPU RefuseWhenFull 4 8 8 1)))
        \<lparr>hasProgress := False\<rparr>)))))"

text \<open>
  C9. Renaming calls \<^verbatim>\<open>mapTable.getMapping(inst->getSrcOp1())\<close> without a guard; only the
  second source and the destination are tested against the sentinel. For the program that
  consists of one load whose first source is "none", the dispatch of cycle 2 looks the
  sentinel up in the map table.
\<close>

theorem dispatch_looks_up_absent_source:
  "dispatchStage noSourceState = [0]
   \<and> srcOp1 (instructionsList noSourceState ! 0) = - 1
   \<and> mapReads noSourceState = []
   \<and> mapReads (dispatch noSourceState) = [- 1, 1]
   \<and> traceLog (dispatch noSourceState) = traceLog noSourceState @ [(2, Dispatch, 0)]"
proof -
  have q: "dispatchStage noSourceState = [0]" by code_simp
  have w: "width noSourceState = Suc 0" by code_simp
  have r: "rob_hasFreeEntry noSourceState" by code_simp
  have f: "findFreeRS (rsKind (instructionsList noSourceState ! 0))
             (reservationStations noSourceState) 0 = Some 2" by code_simp
  have h: "hasRegister noSourceState" by code_simp
  have s1: "srcOp1 (instructionsList noSourceState ! 0) = - 1" by code_simp
  have s2: "srcOp2 (instructionsList noSourceState ! 0) = - 1" by code_simp
  have d: "dstOp (instructionsList noSourceState ! 0) = 1" by code_simp
  have m: "mapReads noSourceState = []" by code_simp
  have c: "cycle noSourceState = 2" by code_simp
  have "dispatch_body noSourceState = Continue (dispatch_inst 0 2 noSourceState)"
    by (simp add: dispatch_body_def q r f h)
  then have "dispatch noSourceState = dispatch_inst 0 2 noSourceState"
    by (simp add: dispatch_def w)
  then show ?thesis
    by (simp add: dispatch_inst_proj dispReads_def q s1 s2 d m c)
qed

section \<open>Completions per cycle\<close>




end
